theory Spec2Isabelle
  imports Main "HOL-Library.Char_ord" "HOL-Library.AList"
begin

section \<open>Strings and characters\<close>

text \<open>
  The document processor of \<^verbatim>\<open>src/lib/document-processor.ts\<close> is a chain of
  regular-expression rewrites over strings. Strings are modelled as \<^typ>\<open>string\<close>: lists of
  8-bit code units (the Latin-1 part of a JavaScript string). All patterns of the source are
  ASCII, so a code unit above 255 would behave in every pattern like a non-ASCII,
  non-whitespace Latin-1 character.
\<close>

text \<open>White space as matched by \<^verbatim>\<open>\s\<close> and removed by \<^verbatim>\<open>trim()\<close>:
  TAB, LF, VT, FF, CR, SPACE and NBSP.\<close>

definition is_space :: "char \<Rightarrow> bool" where
  "is_space c = (c = CHR 0x20 \<or> (CHR 0x09 \<le> c \<and> c \<le> CHR 0x0D) \<or> c = CHR 0xA0)"

definition is_digit :: "char \<Rightarrow> bool" where
  "is_digit c = (CHR ''0'' \<le> c \<and> c \<le> CHR ''9'')"

definition is_lower :: "char \<Rightarrow> bool" where
  "is_lower c = (CHR ''a'' \<le> c \<and> c \<le> CHR ''z'')"

definition is_upper :: "char \<Rightarrow> bool" where
  "is_upper c = (CHR ''A'' \<le> c \<and> c \<le> CHR ''Z'')"

text \<open>An ASCII letter and its other case differ in bit 5 (value 32) only.\<close>

fun set_bit5 :: "bool \<Rightarrow> char \<Rightarrow> char" where
  "set_bit5 b (Char b0 b1 b2 b3 b4 b5 b6 b7) = Char b0 b1 b2 b3 b4 b b6 b7"

text \<open>\<^verbatim>\<open>Canonicalize\<close> of a case-insensitive pattern, on ASCII: upper-casing.\<close>

definition to_upper :: "char \<Rightarrow> char" where
  "to_upper c = (if is_lower c then set_bit5 False c else c)"

definition to_lower :: "char \<Rightarrow> char" where
  "to_lower c = (if is_upper c then set_bit5 True c else c)"

text \<open>Word characters of \<^verbatim>\<open>\b\<close>: letters, digits and the underscore.\<close>

definition is_word :: "char \<Rightarrow> bool" where
  "is_word c = (is_lower c \<or> is_upper c \<or> is_digit c \<or> c = CHR ''_'')"

text \<open>\<^verbatim>\<open>String.prototype.trim\<close>.\<close>

definition trim :: "string \<Rightarrow> string" where
  "trim s = rev (dropWhile is_space (rev (dropWhile is_space s)))"

text \<open>\<^verbatim>\<open>String.prototype.endsWith\<close>.\<close>

definition ends_with :: "string \<Rightarrow> string \<Rightarrow> bool" where
  "ends_with s suf = (length suf \<le> length s \<and> drop (length s - length suf) s = suf)"

text \<open>\<^verbatim>\<open>String.prototype.indexOf\<close> of one character; \<open>None\<close> stands for \<open>-1\<close>.\<close>

fun index_of :: "char \<Rightarrow> string \<Rightarrow> nat option" where
  "index_of c [] = None"
| "index_of c (x # xs) = (if x = c then Some 0 else map_option Suc (index_of c xs))"

text \<open>\<^verbatim>\<open>String.prototype.split\<close> at one character.\<close>

fun split_on :: "char \<Rightarrow> string \<Rightarrow> string list" where
  "split_on d [] = [[]]"
| "split_on d (c # cs) =
     (if c = d then [] # split_on d cs
      else (case split_on d cs of [] \<Rightarrow> [[c]] | l # ls \<Rightarrow> (c # l) # ls))"

text \<open>\<^verbatim>\<open>String.prototype.replace\<close> with a string as pattern: only the first
  occurrence of the pattern is replaced.\<close>

fun str_replace :: "string \<Rightarrow> string \<Rightarrow> string \<Rightarrow> string" where
  "str_replace pat new [] = (if pat = [] then new else [])"
| "str_replace pat new (c # cs) =
     (if take (length pat) (c # cs) = pat then new @ drop (length pat) (c # cs)
      else c # str_replace pat new cs)"


section \<open>Regular expressions with backtracking\<close>

text \<open>
  The patterns of the source, as a datatype. A character class is a list of items, possibly
  negated. \<open>Rep greedy min max r\<close> is a quantifier (\<open>max = None\<close>: unbounded) and
  \<open>Grp n r\<close> the capturing group number \<open>n\<close>.
\<close>

datatype citem = COne char | CRange char char | CSpace | CNonSpace | CDigit

datatype rx =
    Eps
  | Chr char
  | Cls bool "citem list"
  | Seq rx rx
  | Alt rx rx
  | Rep bool nat "nat option" rx
  | Grp nat rx
  | Bol
  | Eol
  | Wordb

fun citem_has :: "citem \<Rightarrow> char \<Rightarrow> bool" where
  "citem_has (COne d) c = (c = d)"
| "citem_has (CRange lo hi) c = (lo \<le> c \<and> c \<le> hi)"
| "citem_has CSpace c = is_space c"
| "citem_has CNonSpace c = (\<not> is_space c)"
| "citem_has CDigit c = is_digit c"

text \<open>With the flag \<^verbatim>\<open>i\<close> a character is in a class when the class has a member
  with the same canonical form, that is the character in either case.\<close>

definition cls_has :: "bool \<Rightarrow> citem list \<Rightarrow> char \<Rightarrow> bool" where
  "cls_has ic items c =
     (if ic then list_ex (\<lambda>it. citem_has it (to_upper c) \<or> citem_has it (to_lower c)) items
      else list_ex (\<lambda>it. citem_has it c) items)"

text \<open>
  A matcher state: the input before the current position (reversed), the input from the
  current position on, and the captures made so far (most recent first). Matchers are
  written in continuation-passing style, as in the ECMAScript specification: a matcher gets
  the continuation that matches the remainder of the pattern, and backtracks when the
  continuation fails.
\<close>

datatype mstate = MState (pre: string) (rest: string) (caps: "(nat \<times> string) list")

type_synonym cont = "mstate \<Rightarrow> mstate option"
type_synonym matcher = "cont \<Rightarrow> mstate \<Rightarrow> mstate option"

fun step1 :: "(char \<Rightarrow> bool) \<Rightarrow> cont \<Rightarrow> mstate \<Rightarrow> mstate option" where
  "step1 P k (MState p [] cs) = None"
| "step1 P k (MState p (c # r) cs) = (if P c then k (MState (c # p) r cs) else None)"

fun clear_caps :: "nat list \<Rightarrow> mstate \<Rightarrow> mstate" where
  "clear_caps gs (MState p r cs) = MState p r (filter (\<lambda>(n, _). n \<notin> set gs) cs)"

fun dec_max :: "nat option \<Rightarrow> nat option" where
  "dec_max None = None"
| "dec_max (Some n) = Some (n - 1)"

text \<open>
  \<^verbatim>\<open>RepeatMatcher\<close>: while \<open>min\<close> iterations are still owed the atom must match; after
  that a greedy quantifier tries one more iteration before the continuation, a lazy one the
  continuation first. An iteration that matches the empty string once \<open>min\<close> is reached is
  rejected; a matcher only moves forward, so this is the test that the remaining input became
  shorter. The captures of the groups inside the atom are cleared before each iteration.
\<close>

function rep_loop ::
  "matcher \<Rightarrow> nat list \<Rightarrow> bool \<Rightarrow> nat \<Rightarrow> nat option \<Rightarrow> cont \<Rightarrow> mstate \<Rightarrow> mstate option" where
  "rep_loop f gs g mn mx k st =
     (if mx = Some 0 then k st
      else if 0 < mn then
        f (\<lambda>st'. rep_loop f gs g (mn - 1) (dec_max mx) k st') (clear_caps gs st)
      else if g then
        (case f (\<lambda>st'. if length (rest st') < length (rest st)
                        then rep_loop f gs g 0 (dec_max mx) k st' else None) (clear_caps gs st) of
           Some e \<Rightarrow> Some e
         | None \<Rightarrow> k st)
      else
        (case k st of
           Some e \<Rightarrow> Some e
         | None \<Rightarrow> f (\<lambda>st'. if length (rest st') < length (rest st)
                        then rep_loop f gs g 0 (dec_max mx) k st' else None) (clear_caps gs st)))"
  by pat_completeness auto
termination
  by (relation "measures [\<lambda>(f, gs, g, mn, mx, k, st). mn,
                          \<lambda>(f, gs, g, mn, mx, k, st). length (rest st)]") auto

fun groups :: "rx \<Rightarrow> nat list" where
  "groups (Seq a b) = groups a @ groups b"
| "groups (Alt a b) = groups a @ groups b"
| "groups (Rep g mn mx a) = groups a"
| "groups (Grp n a) = n # groups a"
| "groups _ = []"

text \<open>The continuation of a group records the text matched since the group was entered.\<close>

fun grp_k :: "nat \<Rightarrow> mstate \<Rightarrow> cont \<Rightarrow> mstate \<Rightarrow> mstate option" where
  "grp_k n st k st' =
     k (MState (pre st') (rest st')
          ((n, take (length (rest st) - length (rest st')) (rest st)) # caps st'))"

definition at_wordb :: "mstate \<Rightarrow> bool" where
  "at_wordb st =
     ((case pre st of [] \<Rightarrow> False | c # _ \<Rightarrow> is_word c) \<noteq>
      (case rest st of [] \<Rightarrow> False | c # _ \<Rightarrow> is_word c))"

text \<open>The matcher of a pattern; \<open>ic\<close> is the flag \<^verbatim>\<open>i\<close>.\<close>

fun rxm :: "bool \<Rightarrow> rx \<Rightarrow> cont \<Rightarrow> mstate \<Rightarrow> mstate option" where
  "rxm ic Eps k st = k st"
| "rxm ic (Chr c) k st = step1 (\<lambda>x. if ic then to_upper x = to_upper c else x = c) k st"
| "rxm ic (Cls neg items) k st = step1 (\<lambda>x. cls_has ic items x \<noteq> neg) k st"
| "rxm ic (Seq a b) k st = rxm ic a (rxm ic b k) st"
| "rxm ic (Alt a b) k st = (case rxm ic a k st of Some e \<Rightarrow> Some e | None \<Rightarrow> rxm ic b k st)"
| "rxm ic (Rep g mn mx a) k st = rep_loop (rxm ic a) (groups a) g mn mx k st"
| "rxm ic (Grp n a) k st = rxm ic a (grp_k n st k) st"
| "rxm ic Bol k st = (if pre st = [] then k st else None)"
| "rxm ic Eol k st = (if rest st = [] then k st else None)"
| "rxm ic Wordb k st = (if at_wordb st then k st else None)"

text \<open>
  \<^verbatim>\<open>RegExp.prototype.exec\<close>: the leftmost position from which the pattern matches. The
  result is the input before the match (reversed) and the state at the end of the match.
\<close>

fun search :: "bool \<Rightarrow> rx \<Rightarrow> string \<Rightarrow> string \<Rightarrow> (string \<times> mstate) option" where
  "search ic r p [] =
     (case rxm ic r Some (MState p [] []) of Some e \<Rightarrow> Some (p, e) | None \<Rightarrow> None)"
| "search ic r p (c # cs) =
     (case rxm ic r Some (MState p (c # cs) []) of
        Some e \<Rightarrow> Some (p, e)
      | None \<Rightarrow> search ic r (c # p) cs)"

text \<open>The matched text \<^verbatim>\<open>match[0]\<close> and the groups \<^verbatim>\<open>match[n]\<close> (\<^verbatim>\<open>$n\<close> in a
  replacement; a group that did not take part counts as the empty string).\<close>

definition matched :: "string \<Rightarrow> mstate \<Rightarrow> string" where
  "matched q e = rev (take (length (pre e) - length q) (pre e))"

definition grp :: "mstate \<Rightarrow> nat \<Rightarrow> string" where
  "grp e n = (case map_of (caps e) n of Some t \<Rightarrow> t | None \<Rightarrow> [])"

type_synonym replacer = "string \<Rightarrow> (nat \<Rightarrow> string) \<Rightarrow> string"

text \<open>
  \<^verbatim>\<open>String.prototype.replace\<close> with a pattern that has the flag \<^verbatim>\<open>g\<close>: every match,
  from left to right, each search starting where the previous match ended (one character
  later after an empty match); the replaced text is not searched again.
\<close>

function gsub :: "bool \<Rightarrow> rx \<Rightarrow> replacer \<Rightarrow> string \<Rightarrow> string \<Rightarrow> string" where
  "gsub ic r f p s =
     (case search ic r p s of
        None \<Rightarrow> s
      | Some (q, e) \<Rightarrow>
          rev (take (length q - length p) q) @ f (matched q e) (grp e) @
          (if length (rest e) < length s - (length q - length p)
           then gsub ic r f (pre e) (rest e)
           else (case drop (length q - length p) s of
                   [] \<Rightarrow> []
                 | c # cs \<Rightarrow> c # gsub ic r f (c # q) cs)))"
  by pat_completeness auto
termination
proof (relation "measure (\<lambda>(ic, r, f, p, s). length s)", goal_cases)
  case 1
  show ?case by simp
next
  case (2 ic r f p s x q e)
  then show ?case by simp
next
  case (3 ic r f p s x q e c cs)
  then have "length (drop (length q - length p) s) = Suc (length cs)" by simp
  then show ?case by simp
qed

definition replace_all :: "bool \<Rightarrow> rx \<Rightarrow> replacer \<Rightarrow> string \<Rightarrow> string" where
  "replace_all ic r f s = gsub ic r f [] s"

text \<open>The same without the flag \<^verbatim>\<open>g\<close>: the first match only.\<close>

definition replace_first :: "bool \<Rightarrow> rx \<Rightarrow> replacer \<Rightarrow> string \<Rightarrow> string" where
  "replace_first ic r f s =
     (case search ic r [] s of
        None \<Rightarrow> s
      | Some (q, e) \<Rightarrow> rev q @ f (matched q e) (grp e) @ rest e)"

text \<open>\<^verbatim>\<open>String.prototype.match\<close> without the flag \<^verbatim>\<open>g\<close>: the matched text and the
  groups, or \<open>None\<close> for \<^verbatim>\<open>null\<close>.\<close>

definition rmatch :: "bool \<Rightarrow> rx \<Rightarrow> string \<Rightarrow> (string \<times> (nat \<Rightarrow> string)) option" where
  "rmatch ic r s =
     (case search ic r [] s of
        None \<Rightarrow> None
      | Some (q, e) \<Rightarrow> Some (matched q e, grp e))"

subsection \<open>Notation for patterns\<close>

definition lit :: "string \<Rightarrow> rx" where
  "lit w = foldr (\<lambda>c r. Seq (Chr c) r) w Eps"

definition cat :: "rx list \<Rightarrow> rx" where
  "cat rs = foldr Seq rs Eps"

abbreviation Star :: "rx \<Rightarrow> rx" where "Star r \<equiv> Rep True 0 None r"
abbreviation Plus :: "rx \<Rightarrow> rx" where "Plus r \<equiv> Rep True 1 None r"
abbreviation Opt :: "rx \<Rightarrow> rx" where "Opt r \<equiv> Rep True 0 (Some 1) r"
abbreviation LazyStar :: "rx \<Rightarrow> rx" where "LazyStar r \<equiv> Rep False 0 None r"
abbreviation AtLeast :: "nat \<Rightarrow> rx \<Rightarrow> rx" where "AtLeast n r \<equiv> Rep True n None r"
abbreviation AnyCh :: rx where "AnyCh \<equiv> Cls False [CSpace, CNonSpace]"
abbreviation Sp :: rx where "Sp \<equiv> Cls False [CSpace]"
abbreviation Not1 :: "char \<Rightarrow> rx" where "Not1 c \<equiv> Cls True [COne c]"
abbreviation Quote :: rx where "Quote \<equiv> Cls False [COne (CHR 0x22), COne (CHR 0x27)]"
abbreviation NoQuote :: rx where "NoQuote \<equiv> Cls True [COne (CHR 0x22), COne (CHR 0x27)]"
abbreviation const_repl :: "string \<Rightarrow> replacer" where "const_repl w \<equiv> (\<lambda>_ _. w)"
abbreviation NL :: char where "NL \<equiv> CHR 0x0A"


section \<open>The document processor\<close>

subsection \<open>processMarkdown\<close>

text \<open>\<^verbatim>\<open>/^---\n[\s\S]*?\n---\n/\<close>\<close>

definition frontmatterRegex_strip :: rx where
  "frontmatterRegex_strip =
     cat [Bol, lit ''---'', Chr NL, LazyStar AnyCh, Chr NL, lit ''---'', Chr NL]"

definition processMarkdown :: "string \<Rightarrow> string" where
  "processMarkdown content = trim (replace_first False frontmatterRegex_strip (const_repl []) content)"

subsection \<open>cleanHtml\<close>

text \<open>Step 1 of \<^verbatim>\<open>cleanHtml\<close>: the meta sections at the end.\<close>

definition metaHeadings :: "string list" where
  "metaHeadings =
     [''meta information'', ''meta info'', ''article meta'', ''post meta'',
      ''seo information'', ''seo info'', ''seo details'', ''seo'',
      ''metadata'', ''meta data'', ''article information'',
      ''keywords'', ''tags'', ''categories'',
      ''notes'', ''internal notes'', ''editor notes'',
      ''---'']"

text \<open>\<^verbatim>\<open>heading.replace(/\s+/g, '\\s*')\<close>: the heading as pattern source.\<close>

definition heading_src :: "string \<Rightarrow> string" where
  "heading_src heading =
     replace_all False (Plus Sp) (const_repl [CHR 0x5C, CHR ''s'', CHR ''*'']) heading"

text \<open>
  \<^verbatim>\<open>new RegExp\<close> on such a source: \<^verbatim>\<open>\s*\<close> is a run of white space, any other
  character stands for itself (the headings consist of letters, blanks and hyphens).
\<close>

fun src_rx :: "string \<Rightarrow> rx" where
  "src_rx [] = Eps"
| "src_rx (c # cs) =
     (if c = CHR 0x5C \<and> take 2 cs = ''s*'' then Seq (Star Sp) (src_rx (drop 2 cs))
      else Seq (Chr c) (src_rx cs))"

text \<open>\<^verbatim>\<open>[\s\S]*$\<close>, the end of every truncating pattern.\<close>

definition tail_rx :: rx where
  "tail_rx = Seq (Star AnyCh) Eol"

text \<open>\<^verbatim>\<open><hr[^>]*>\<close>\<close>

definition hr_marker :: rx where
  "hr_marker = cat [lit ''<hr'', Star (Not1 CHR ''>''), lit ''>'']"

text \<open>\<^verbatim>\<open><p[^>]*>[\s]*HEADING[\s]*:?[\s]*<\/p>\<close>\<close>

definition p_marker :: "string \<Rightarrow> rx" where
  "p_marker heading =
     cat [lit ''<p'', Star (Not1 CHR ''>''), lit ''>'', Star Sp, src_rx (heading_src heading),
          Star Sp, Opt (Chr CHR '':''), Star Sp, lit ''</p>'']"

text \<open>\<^verbatim>\<open><h\d[^>]*>[\s]*HEADING[\s]*:?[\s]*<\/h\d>\<close>\<close>

definition h_marker :: "string \<Rightarrow> rx" where
  "h_marker heading =
     cat [lit ''<h'', Cls False [CDigit], Star (Not1 CHR ''>''), lit ''>'', Star Sp,
          src_rx (heading_src heading),
          Star Sp, Opt (Chr CHR '':''), Star Sp, lit ''</h'', Cls False [CDigit], lit ''>'']"

text \<open>\<^verbatim>\<open><p[^>]*>[\s]*<(?:strong|b)>[\s]*HEADING[\s]*:?[\s]*<\/(?:strong|b)>\<close>\<close>

definition b_marker :: "string \<Rightarrow> rx" where
  "b_marker heading =
     cat [lit ''<p'', Star (Not1 CHR ''>''), lit ''>'', Star Sp,
          lit ''<'', Alt (lit ''strong'') (lit ''b''), lit ''>'', Star Sp,
          src_rx (heading_src heading),
          Star Sp, Opt (Chr CHR '':''), Star Sp,
          lit ''</'', Alt (lit ''strong'') (lit ''b''), lit ''>'']"

text \<open>\<^verbatim>\<open>[-_=]{3,}\<close> and \<^verbatim>\<open>\*{3,}\<close>\<close>

definition dash_marker :: rx where
  "dash_marker = AtLeast 3 (Cls False [COne CHR ''-'', COne CHR ''_'', COne CHR ''=''])"

definition star_marker :: rx where
  "star_marker = AtLeast 3 (Chr CHR ''*'')"

text \<open>One truncating replacement: \<^verbatim>\<open>cleaned.replace(/MARKER[\s\S]*$/g, '')\<close>.\<close>

definition cut_at :: "bool \<Rightarrow> rx \<Rightarrow> string \<Rightarrow> string" where
  "cut_at ic marker cleaned = replace_all ic (Seq marker tail_rx) (const_repl []) cleaned"

text \<open>The body of the loop over \<^verbatim>\<open>metaHeadings\<close>.\<close>

definition strip_heading :: "string \<Rightarrow> string \<Rightarrow> string" where
  "strip_heading cleaned heading =
     cut_at True (b_marker heading) (cut_at True (h_marker heading) (cut_at True (p_marker heading) cleaned))"

definition truncate_meta :: "string \<Rightarrow> string" where
  "truncate_meta html =
     cut_at False star_marker
       (cut_at False dash_marker
         (foldl strip_heading (cut_at True hr_marker html) metaHeadings))"

text \<open>Step 2 of \<^verbatim>\<open>cleanHtml\<close>: everything except the allowed tags.\<close>

definition allowedTags :: "string list" where
  "allowedTags = [''p'', ''h1'', ''h2'', ''h3'', ''h4'', ''h5'', ''h6'', ''strong'', ''b'',
                  ''em'', ''i'', ''ul'', ''ol'', ''li'', ''br'', ''a'']"

text \<open>\<^verbatim>\<open>/<\/?([a-z][a-z0-9]*)\b[^>]*>/gi\<close>\<close>

definition tagPattern :: rx where
  "tagPattern =
     cat [lit ''<'', Opt (Chr CHR ''/''),
          Grp 1 (Seq (Cls False [CRange CHR ''a'' CHR ''z''])
                     (Star (Cls False [CRange CHR ''a'' CHR ''z'', CRange CHR ''0'' CHR ''9'']))),
          Wordb, Star (Not1 CHR ''>''), lit ''>'']"

text \<open>\<^verbatim>\<open>/<a\s+[^>]*href=["']([^"']*)["'][^>]*>/gi\<close>\<close>

definition anchor_rx :: rx where
  "anchor_rx =
     cat [lit ''<a'', Plus Sp, Star (Not1 CHR ''>''), lit ''href='', Quote,
          Grp 1 (Star NoQuote), Quote, Star (Not1 CHR ''>''), lit ''>'']"

text \<open>\<^verbatim>\<open>/<(p|h[1-6]|strong|b|em|i|ul|ol|li|br|div|span)\s+[^>]*>/gi\<close>\<close>

definition attr_rx :: rx where
  "attr_rx =
     cat [lit ''<'',
          Grp 1 (Alt (lit ''p'') (Alt (Seq (Chr CHR ''h'') (Cls False [CRange CHR ''1'' CHR ''6'']))
            (Alt (lit ''strong'') (Alt (lit ''b'') (Alt (lit ''em'') (Alt (lit ''i'')
            (Alt (lit ''ul'') (Alt (lit ''ol'') (Alt (lit ''li'') (Alt (lit ''br'')
            (Alt (lit ''div'') (lit ''span'')))))))))))),
          Plus Sp, Star (Not1 CHR ''>''), lit ''>'']"

text \<open>
  The replacements of step 2, in the order of the source:
  \<^item> \<^verbatim>\<open>/<script[\s\S]*?<\/script>/gi\<close>, \<^verbatim>\<open>/<style[\s\S]*?<\/style>/gi\<close> and
    \<^verbatim>\<open>/<!--[\s\S]*?-->/g\<close> by nothing;
  \<^item> the anchor pattern by \<^verbatim>\<open><a href="$1">\<close>, the attribute pattern by \<^verbatim>\<open><$1>\<close>;
  \<^item> \<^verbatim>\<open>/<div[^>]*>/gi\<close> by \<^verbatim>\<open><p>\<close>, \<^verbatim>\<open>/<\/div>/gi\<close> by \<^verbatim>\<open></p>\<close>,
    \<^verbatim>\<open>/<span[^>]*>/gi\<close> and \<^verbatim>\<open>/<\/span>/gi\<close> by nothing;
  \<^item> every match of the tag pattern by itself when its lower-cased name is an allowed tag, and
    by nothing otherwise.
\<close>

definition allowlist :: "string \<Rightarrow> string" where
  "allowlist s0 =
    (let s1 = replace_all True (cat [lit ''<script'', LazyStar AnyCh, lit ''</script>'']) (const_repl []) s0;
         s2 = replace_all True (cat [lit ''<style'', LazyStar AnyCh, lit ''</style>'']) (const_repl []) s1;
         s3 = replace_all False (cat [lit ''<!--'', LazyStar AnyCh, lit ''-->'']) (const_repl []) s2;
         s4 = replace_all True anchor_rx (\<lambda>_ g. ''<a href='' @ [CHR 0x22] @ g 1 @ [CHR 0x22] @ ''>'') s3;
         s5 = replace_all True attr_rx (\<lambda>_ g. ''<'' @ g 1 @ ''>'') s4;
         s6 = replace_all True (cat [lit ''<div'', Star (Not1 CHR ''>''), lit ''>'']) (const_repl ''<p>'') s5;
         s7 = replace_all True (lit ''</div>'') (const_repl ''</p>'') s6;
         s8 = replace_all True (cat [lit ''<span'', Star (Not1 CHR ''>''), lit ''>'']) (const_repl []) s7;
         s9 = replace_all True (lit ''</span>'') (const_repl []) s8
     in replace_all True tagPattern
          (\<lambda>match g. if map to_lower (g 1) \<in> set allowedTags then match else []) s9)"

text \<open>Step 3 of \<^verbatim>\<open>cleanHtml\<close>: white space.\<close>

text \<open>
  The replacements of step 3, in the order of the source:
  \<^item> \<^verbatim>\<open>/[ \t]+/g\<close> by one blank, \<^verbatim>\<open>/>\s+/g\<close> by \<^verbatim>\<open>>\<close>, \<^verbatim>\<open>/\s+</g\<close> by
    \<^verbatim>\<open><\<close>;
  \<^item> \<^verbatim>\<open>/<p><\/p>/gi\<close> and \<^verbatim>\<open>/<p>\s*<\/p>/gi\<close> by nothing;
  \<^item> \<^verbatim>\<open>/(<br\s*\/?>\s*){3,}/gi\<close> by \<^verbatim>\<open><br><br>\<close>;
  \<^item> \<^verbatim>\<open>/(<\/p>\s*<p>)+/gi\<close> by \<^verbatim>\<open></p><p>\<close>;
  \<^item> \<^verbatim>\<open>/<\/p><p>/g\<close>, \<^verbatim>\<open>/<\/h(\d)><p>/g\<close> and \<^verbatim>\<open>/<\/p><h(\d)>/g\<close> by the same
    tags with two newlines between them.
\<close>

definition normalize_ws :: "string \<Rightarrow> string" where
  "normalize_ws s0 =
    (let s1 = replace_all False (Plus (Cls False [COne CHR '' '', COne (CHR 0x09)])) (const_repl '' '') s0;
         s2 = replace_all False (Seq (Chr CHR ''>'') (Plus Sp)) (const_repl ''>'') s1;
         s3 = replace_all False (Seq (Plus Sp) (Chr CHR ''<'')) (const_repl ''<'') s2;
         s4 = replace_all True (lit ''<p></p>'') (const_repl []) s3;
         s5 = replace_all True (cat [lit ''<p>'', Star Sp, lit ''</p>'']) (const_repl []) s4;
         s6 = replace_all True
                (AtLeast 3 (Grp 1 (cat [lit ''<br'', Star Sp, Opt (Chr CHR ''/''), lit ''>'', Star Sp])))
                (const_repl ''<br><br>'') s5;
         s7 = replace_all True (Plus (Grp 1 (cat [lit ''</p>'', Star Sp, lit ''<p>''])))
                (const_repl ''</p><p>'') s6;
         s8 = replace_all False (lit ''</p><p>'') (const_repl (''</p>'' @ [NL, NL] @ ''<p>'')) s7;
         s9 = replace_all False (cat [lit ''</h'', Grp 1 (Cls False [CDigit]), lit ''><p>''])
                (\<lambda>_ g. ''</h'' @ g 1 @ ''>'' @ [NL, NL] @ ''<p>'') s8
     in replace_all False (cat [lit ''</p><h'', Grp 1 (Cls False [CDigit]), lit ''>''])
                (\<lambda>_ g. ''</p>'' @ [NL, NL] @ ''<h'' @ g 1 @ ''>'') s9)"

text \<open>Step 4 of \<^verbatim>\<open>cleanHtml\<close>: \<^verbatim>\<open>cleaned.replace(/^[^<]*/, '')\<close>, then \<^verbatim>\<open>trim\<close>.\<close>

definition leading_rx :: rx where
  "leading_rx = Seq Bol (Star (Not1 CHR ''<''))"

definition cleanHtml :: "string \<Rightarrow> string" where
  "cleanHtml html =
     trim (replace_first False leading_rx (const_repl [])
       (normalize_ws (allowlist (truncate_meta html))))"

subsection \<open>cleanGoogleDocsHtml\<close>

definition title_class_rx :: "string \<Rightarrow> rx" where
  "title_class_rx tag =
     cat [lit (''<'' @ tag), Star (Not1 CHR ''>''), lit ''class='', Chr (CHR 0x22),
          Star (Not1 (CHR 0x22)), lit ''title'', Star (Not1 (CHR 0x22)), Chr (CHR 0x22),
          Star (Not1 CHR ''>''), lit ''>'', LazyStar AnyCh, lit (''</'' @ tag @ ''>'')]"

definition cleanGoogleDocsHtml :: "string \<Rightarrow> string" where
  "cleanGoogleDocsHtml html =
    (let content =
           (case rmatch True (cat [lit ''<body'', Star (Not1 CHR ''>''), lit ''>'',
                                   Grp 1 (Star AnyCh), lit ''</body>'']) html of
              Some (_, g) \<Rightarrow> g 1
            | None \<Rightarrow> html);
         c1 = replace_all True (title_class_rx ''p'') (const_repl []) content;
         c2 = replace_all True (title_class_rx ''h1'') (const_repl []) c1;
         c3 = replace_all True
                (cat [lit ''<div'', Star (Not1 CHR ''>''), lit ''class='', Chr (CHR 0x22),
                      Star (Not1 (CHR 0x22)), lit ''doc-content'', Star (Not1 (CHR 0x22)),
                      Chr (CHR 0x22), Star (Not1 CHR ''>''), lit ''>''])
                (const_repl []) c2
     in cleanHtml c3)"

subsection \<open>extractTitleFromContent\<close>

record TitleExtractionResult =
  title :: "string option"
  contentWithoutTitle :: string

text \<open>\<^verbatim>\<open>/<h1[^>]*>([\s\S]*?)<\/h1>/i\<close> and the same for \<^verbatim>\<open>h2\<close>.\<close>

definition h1_rx :: rx where
  "h1_rx = cat [lit ''<h1'', Star (Not1 CHR ''>''), lit ''>'', Grp 1 (LazyStar AnyCh), lit ''</h1>'']"

definition h2_rx :: rx where
  "h2_rx = cat [lit ''<h2'', Star (Not1 CHR ''>''), lit ''>'', Grp 1 (LazyStar AnyCh), lit ''</h2>'']"

text \<open>\<^verbatim>\<open>/<[^>]+>/g\<close>\<close>

definition tag_rx :: rx where
  "tag_rx = cat [lit ''<'', Plus (Not1 CHR ''>''), lit ''>'']"

text \<open>The chain of replacements on \<^verbatim>\<open>titleHtml\<close>, followed by \<^verbatim>\<open>trim\<close>.\<close>

definition title_text :: "string \<Rightarrow> string" where
  "title_text titleHtml =
     trim
       (replace_all False (lit ''&#39;'') (const_repl [CHR 0x27])
       (replace_all False (lit ''&quot;'') (const_repl [CHR 0x22])
       (replace_all False (lit ''&gt;'') (const_repl ''>'')
       (replace_all False (lit ''&lt;'') (const_repl ''<'')
       (replace_all False (lit ''&amp;'') (const_repl ''&'')
       (replace_all False (lit ''&nbsp;'') (const_repl '' '')
       (replace_all False tag_rx (const_repl []) titleHtml)))))))"

definition extractTitleFromContent :: "string \<Rightarrow> TitleExtractionResult" where
  "extractTitleFromContent html =
     (case (case rmatch True h1_rx html of Some mt \<Rightarrow> Some mt | None \<Rightarrow> rmatch True h2_rx html) of
        None \<Rightarrow> \<lparr>title = None, contentWithoutTitle = html\<rparr>
      | Some (el, g) \<Rightarrow>
          \<lparr>title = (if title_text (g 1) = [] then None else Some (title_text (g 1))),
           contentWithoutTitle = trim (str_replace el [] html)\<rparr>)"

subsection \<open>extractFrontmatter\<close>

text \<open>\<^verbatim>\<open>/^---\n([\s\S]*?)\n---/\<close>\<close>

definition frontmatterRegex_extract :: rx where
  "frontmatterRegex_extract =
     cat [Bol, lit ''---'', Chr NL, Grp 1 (LazyStar AnyCh), Chr NL, lit ''---'']"

text \<open>\<^verbatim>\<open>/^["']|["']$/g\<close>\<close>

definition quotes_rx :: rx where
  "quotes_rx = Alt (Seq Bol Quote) (Seq Quote Eol)"

text \<open>
  The object \<^verbatim>\<open>frontmatter\<close> is an association list of its own properties (the
  order of the list carries no meaning). The assignment \<^verbatim>\<open>frontmatter[key] = value\<close>
  sets or creates the property, except for the key \<^verbatim>\<open>__proto__\<close>, whose setter
  ignores a string.
\<close>

definition set_prop :: "(string \<times> string) list \<Rightarrow> string \<Rightarrow> string \<Rightarrow> (string \<times> string) list" where
  "set_prop obj key v = (if key = ''__proto__'' then obj else AList.update key v obj)"

definition frontmatter_line :: "(string \<times> string) list \<Rightarrow> string \<Rightarrow> (string \<times> string) list" where
  "frontmatter_line frontmatter line =
     (case index_of CHR '':'' line of
        None \<Rightarrow> frontmatter
      | Some colonIndex \<Rightarrow>
          if 0 < colonIndex
          then set_prop frontmatter (trim (take colonIndex line))
                 (replace_all False quotes_rx (const_repl []) (trim (drop (colonIndex + 1) line)))
          else frontmatter)"

definition extractFrontmatter :: "string \<Rightarrow> (string \<times> string) list option" where
  "extractFrontmatter content =
     (case rmatch False frontmatterRegex_extract content of
        None \<Rightarrow> None
      | Some (_, g) \<Rightarrow> Some (foldl frontmatter_line [] (split_on NL (g 1))))"

subsection \<open>processDocument\<close>

text \<open>
  The content is a string or a \<^verbatim>\<open>Buffer\<close> of bytes. The two converters
  (\<^verbatim>\<open>mammoth.convertToHtml\<close>, \<^verbatim>\<open>pdf-parse\<close>) and the decoding of a buffer by
  \<^verbatim>\<open>toString\<close> are outside the repository and are parameters; a converter returns its
  text or the message of the error it throws.
\<close>

datatype content = Str string | Buf "nat list"

record collaborators =
  convertToHtml :: "content \<Rightarrow> string + string"
  pdfParse :: "content \<Rightarrow> string + string"
  decode :: "nat list \<Rightarrow> string"

datatype error =
    UnsupportedFormat string
  | ConversionFailure string
  | TypeError

fun toString :: "collaborators \<Rightarrow> content \<Rightarrow> string" where
  "toString env (Str s) = s"
| "toString env (Buf b) = decode env b"

definition processWordDocument :: "collaborators \<Rightarrow> content \<Rightarrow> error + string" where
  "processWordDocument env buffer =
     (case convertToHtml env buffer of
        Inl msg \<Rightarrow> Inl (ConversionFailure msg)
      | Inr v \<Rightarrow> Inr (cleanHtml v))"

definition processPdfDocument :: "collaborators \<Rightarrow> content \<Rightarrow> error + string" where
  "processPdfDocument env buffer =
     (case pdfParse env buffer of
        Inl msg \<Rightarrow> Inl (ConversionFailure msg)
      | Inr text \<Rightarrow> Inr text)"

definition processDocument :: "collaborators \<Rightarrow> content \<Rightarrow> string \<Rightarrow> string \<Rightarrow> error + string" where
  "processDocument env content mimeType fileName =
     (if mimeType = ''application/vnd.google-apps.document'' then
        (case content of
           Str html \<Rightarrow> Inr (cleanGoogleDocsHtml html)
         | Buf _ \<Rightarrow> Inl TypeError)
      else if mimeType = ''application/vnd.openxmlformats-officedocument.wordprocessingml.document''
            \<or> mimeType = ''application/msword'' then
        processWordDocument env content
      else if mimeType = ''application/pdf'' then
        processPdfDocument env content
      else if mimeType = ''text/markdown'' \<or> mimeType = ''text/x-markdown'' then
        Inr (processMarkdown (toString env content))
      else if mimeType = ''text/plain'' then
        Inr (toString env content)
      else if ends_with fileName ''.md'' then
        Inr (processMarkdown (toString env content))
      else Inl (UnsupportedFormat mimeType))"



section \<open>Notions used in the statements\<close>

text \<open>A matcher only moves forward: \<open>fwd st st'\<close> says that \<open>st'\<close> is \<open>st\<close> after some
  input was consumed.\<close>

definition fwd :: "mstate \<Rightarrow> mstate \<Rightarrow> bool" where
  "fwd st st' \<longleftrightarrow> (\<exists>u. rest st = u @ rest st' \<and> pre st' = rev u @ pre st)"

text \<open>\<open>needs c r\<close>: by its shape, every match of \<open>r\<close> contains the character \<open>c\<close>.\<close>

fun needs :: "char \<Rightarrow> rx \<Rightarrow> bool" where
  "needs c (Chr d) = (d = c)"
| "needs c (Seq a b) = (needs c a \<or> needs c b)"
| "needs c (Alt a b) = (needs c a \<and> needs c b)"
| "needs c (Rep g mn mx a) = (0 < mn \<and> mx \<noteq> Some 0 \<and> needs c a)"
| "needs c (Grp n a) = needs c a"
| "needs c _ = False"

text \<open>
  Plain string functions for the steps of the title text. \<open>subst_all pat new\<close> replaces the
  occurrences of a non-empty \<open>pat\<close> from left to right; \<open>strip_tags\<close> deletes every
  \<^verbatim>\<open><\<close> that is followed by at least one character other than \<^verbatim>\<open>>\<close> and then by a
  \<^verbatim>\<open>>\<close>, together with everything up to that \<^verbatim>\<open>>\<close>; \<open>replace_entities\<close> is the
  chain of the six \<^verbatim>\<open>replace\<close> calls of the source, each working on the result of the
  one before.
\<close>

function subst_all :: "string \<Rightarrow> string \<Rightarrow> string \<Rightarrow> string" where
  "subst_all pat new [] = []"
| "subst_all pat new (c # cs) =
     (if pat \<noteq> [] \<and> take (length pat) (c # cs) = pat
      then new @ subst_all pat new (drop (length pat) (c # cs))
      else c # subst_all pat new cs)"
  by pat_completeness auto
termination
  by (relation "measure (\<lambda>(pat, new, s). length s)") auto

function strip_tags :: "string \<Rightarrow> string" where
  "strip_tags [] = []"
| "strip_tags (c # cs) =
     (if c = CHR ''<'' \<and> takeWhile (\<lambda>x. x \<noteq> CHR ''>'') cs \<noteq> [] \<and> dropWhile (\<lambda>x. x \<noteq> CHR ''>'') cs \<noteq> []
      then strip_tags (tl (dropWhile (\<lambda>x. x \<noteq> CHR ''>'') cs))
      else c # strip_tags cs)"
  by pat_completeness auto
termination
proof (relation "measure length", goal_cases)
  case 1
  show ?case by simp
next
  case (2 c cs)
  have "length (dropWhile (\<lambda>x. x \<noteq> CHR ''>'') cs) \<le> length cs"
    by (rule length_dropWhile_le)
  then show ?case by simp
next
  case (3 c cs)
  show ?case by simp
qed

definition replace_entities :: "string \<Rightarrow> string" where
  "replace_entities s =
     subst_all ''&#39;'' [CHR 0x27]
       (subst_all ''&quot;'' [CHR 0x22]
         (subst_all ''&gt;'' ''>''
           (subst_all ''&lt;'' ''<''
             (subst_all ''&amp;'' ''&''
               (subst_all ''&nbsp;'' '' '' s)))))"

text \<open>
  Decoding the six entities: the text is read once from left to right, an entity at the
  current position gives its character and reading goes on behind the entity, any other
  character is copied. What a decoded entity gives is not read again.
\<close>

definition entities :: "(string \<times> char) list" where
  "entities = [(''&nbsp;'', CHR '' ''), (''&amp;'', CHR ''&''), (''&lt;'', CHR ''<''),
               (''&gt;'', CHR ''>''), (''&quot;'', CHR 0x22), (''&#39;'', CHR 0x27)]"

definition entity_at :: "string \<Rightarrow> (string \<times> char) option" where
  "entity_at s = find (\<lambda>(name, c). take (length name) s = name) entities"

function decode_entities :: "string \<Rightarrow> string" where
  "decode_entities [] = []"
| "decode_entities (c # cs) =
     (case entity_at (c # cs) of
        Some (name, d) \<Rightarrow> d # decode_entities (drop (length name - 1) cs)
      | None \<Rightarrow> c # decode_entities cs)"
  by pat_completeness auto
termination
  by (relation "measure length") auto

text \<open>
  A leading frontmatter block: the text begins with the line \<^verbatim>\<open>---\<close>, and the block
  ends with the first line break after that line that is followed by \<^verbatim>\<open>---\<close> and a line
  break. \<open>after_first w s\<close> is what follows the first occurrence of \<open>w\<close> in \<open>s\<close>;
  \<open>strip_frontmatter\<close> drops the block, and leaves a text without one as it is.
\<close>

fun after_first :: "string \<Rightarrow> string \<Rightarrow> string option" where
  "after_first w [] = (if w = [] then Some [] else None)"
| "after_first w (c # cs) =
     (if take (length w) (c # cs) = w then Some (drop (length w) (c # cs)) else after_first w cs)"

definition strip_frontmatter :: "string \<Rightarrow> string" where
  "strip_frontmatter s =
     (if take 4 s = ''---'' @ [NL]
      then (case after_first (NL # ''---'' @ [NL]) (drop 4 s) of Some b \<Rightarrow> b | None \<Rightarrow> s)
      else s)"

text \<open>The first element matched by a heading pattern, with its inner markup, and the heading
  that \<^verbatim>\<open>extractTitleFromContent\<close> works on: \<^verbatim>\<open>h1Match || h2Match\<close>.\<close>

definition match_elem :: "rx \<Rightarrow> string \<Rightarrow> (string \<times> string) option" where
  "match_elem r html = map_option (\<lambda>(el, g). (el, g 1)) (rmatch True r html)"

definition find_heading :: "string \<Rightarrow> (string \<times> string) option" where
  "find_heading html =
     (case match_elem h1_rx html of Some x \<Rightarrow> Some x | None \<Rightarrow> match_elem h2_rx html)"

text \<open>Patterns without \<^verbatim>\<open>^\<close>, \<^verbatim>\<open>$\<close> and \<^verbatim>\<open>\b\<close>: whether they match depends on the text
  they consume only.\<close>

fun no_anchor :: "rx \<Rightarrow> bool" where
  "no_anchor Bol = False"
| "no_anchor Eol = False"
| "no_anchor Wordb = False"
| "no_anchor (Seq a b) = (no_anchor a \<and> no_anchor b)"
| "no_anchor (Alt a b) = (no_anchor a \<and> no_anchor b)"
| "no_anchor (Rep g mn mx a) = no_anchor a"
| "no_anchor (Grp n a) = no_anchor a"
| "no_anchor _ = True"

text \<open>\<open>path_ok f u\<close>: the matcher \<open>f\<close> succeeds on every input that starts with \<open>u\<close>, provided
  its continuation succeeds after \<open>u\<close>.\<close>

definition path_ok :: "matcher \<Rightarrow> string \<Rightarrow> bool" where
  "path_ok f u \<longleftrightarrow>
     (\<forall>k st y. rest st = u @ y \<longrightarrow>
        (\<forall>st1. rest st1 = y \<longrightarrow> pre st1 = rev u @ pre st \<longrightarrow> k st1 \<noteq> None) \<longrightarrow> f k st \<noteq> None)"

text \<open>The number of characters before the first position of \<open>s\<close> at which the pattern
  matches (the length of \<open>s\<close> if there is none), and whether the pattern matches at
  position \<open>j\<close> of \<open>s\<close>.\<close>

fun first_occ :: "bool \<Rightarrow> rx \<Rightarrow> string \<Rightarrow> string \<Rightarrow> nat" where
  "first_occ ic r p [] = 0"
| "first_occ ic r p (c # cs) =
     (if rxm ic r Some (MState p (c # cs) []) \<noteq> None then 0 else Suc (first_occ ic r (c # p) cs))"

definition occurs :: "bool \<Rightarrow> rx \<Rightarrow> string \<Rightarrow> nat \<Rightarrow> bool" where
  "occurs ic r s j \<longleftrightarrow> j < length s \<and> rxm ic r Some (MState (rev (take j s)) (drop j s) []) \<noteq> None"










text \<open>The seven content types that \<^verbatim>\<open>processDocument\<close> has a case for.\<close>

definition recognizedTypes :: "string list" where
  "recognizedTypes =
     [''application/vnd.google-apps.document'',
      ''application/vnd.openxmlformats-officedocument.wordprocessingml.document'',
      ''application/msword'',
      ''application/pdf'',
      ''text/markdown'',
      ''text/x-markdown'',
      ''text/plain'']"

text \<open>Collaborators for the examples: both converters fail, a buffer decodes to nothing.\<close>

definition failing_converter :: "content \<Rightarrow> string + string" where
  "failing_converter buffer = Inl ''conversion failed''"

definition empty_decode :: "nat list \<Rightarrow> string" where
  "empty_decode bytes = []"

definition test_env :: collaborators where
  "test_env = \<lparr>convertToHtml = failing_converter, pdfParse = failing_converter, decode = empty_decode\<rparr>"


section \<open>Properties of the matcher\<close>

lemma fwd_refl: "fwd st st"
  by (simp add: fwd_def)

lemma fwd_trans: "fwd a b \<Longrightarrow> fwd b c \<Longrightarrow> fwd a c"
  by (auto simp: fwd_def)

lemma fwd_clear: "fwd (clear_caps gs st) st' \<Longrightarrow> fwd st st'"
  by (cases st) (simp add: fwd_def)

lemma fwd_length: "fwd st st' \<Longrightarrow> length (rest st') \<le> length (rest st)"
  by (auto simp: fwd_def)

text \<open>For states that a matcher reaches, the test of \<open>rep_loop\<close> is the test that the
  iteration matched a non-empty text.\<close>

lemma fwd_progress: "fwd st st' \<Longrightarrow> length (rest st') < length (rest st) \<longleftrightarrow> rest st' \<noteq> rest st"
  by (auto simp: fwd_def)

lemma step1_sound: "step1 P k st = Some e \<Longrightarrow> \<exists>st'. fwd st st' \<and> k st' = Some e"
proof (cases st)
  case (MState p r cs)
  assume a: "step1 P k st = Some e"
  show ?thesis
  proof (cases r)
    case Nil
    with a MState show ?thesis by simp
  next
    case (Cons c r')
    with a MState have "P c" and "k (MState (c # p) r' cs) = Some e"
      by (auto split: if_splits)
    moreover have "fwd st (MState (c # p) r' cs)"
      using MState Cons by (simp add: fwd_def)
    ultimately show ?thesis by blast
  qed
qed

declare rep_loop.simps [simp del]

lemma rep_loop_sound:
  "(\<And>k st e. f k st = Some e \<Longrightarrow> \<exists>st'. fwd st st' \<and> k st' = Some e) \<Longrightarrow>
   rep_loop f gs g mn mx k st = Some e \<Longrightarrow> \<exists>st'. fwd st st' \<and> k st' = Some e"
proof (induction f gs g mn mx k st rule: rep_loop.induct)
  case (1 f gs g mn mx k st)
  note IH = "1.IH" and atom = "1.prems"(1) and res = "1.prems"(2)
  show ?case
  proof (cases "mx = Some 0")
    case True
    with res have "k st = Some e" by (subst (asm) rep_loop.simps) simp
    then show ?thesis using fwd_refl by blast
  next
    case nz: False
    show ?thesis
    proof (cases "0 < mn")
      case True
      with nz res have "f (\<lambda>st'. rep_loop f gs g (mn - 1) (dec_max mx) k st') (clear_caps gs st) = Some e"
        by (subst (asm) rep_loop.simps) simp
      from atom[OF this] obtain st1 where
        f1: "fwd (clear_caps gs st) st1" and r1: "rep_loop f gs g (mn - 1) (dec_max mx) k st1 = Some e"
        by blast
      from IH(1)[OF nz True atom r1] obtain st2 where "fwd st1 st2" "k st2 = Some e" by blast
      with f1 show ?thesis using fwd_trans fwd_clear by blast
    next
      case mn0: False
      let ?d = "\<lambda>st'. if length (rest st') < length (rest st)
                        then rep_loop f gs g 0 (dec_max mx) k st' else None"
      have iter: "\<exists>st'. fwd st st' \<and> k st' = Some e" if it: "f ?d (clear_caps gs st) = Some e" and c: "g \<or> k st = None"
      proof -
        from atom[OF it] obtain st1 where
          f1: "fwd (clear_caps gs st) st1" and r1: "?d st1 = Some e" by blast
        then have lt: "length (rest st1) < length (rest st)"
          and r2: "rep_loop f gs g 0 (dec_max mx) k st1 = Some e"
          by (auto split: if_splits)
        have "\<exists>st2. fwd st1 st2 \<and> k st2 = Some e"
        proof (cases g)
          case True
          from IH(2)[OF nz mn0 True lt atom r2] show ?thesis .
        next
          case False
          with c have "k st = None" by simp
          from IH(3)[OF nz mn0 False this lt atom r2] show ?thesis .
        qed
        with f1 show ?thesis using fwd_trans fwd_clear by blast
      qed
      show ?thesis
      proof (cases g)
        case True
        with nz mn0 res have
          "(case f ?d (clear_caps gs st) of Some e \<Rightarrow> Some e | None \<Rightarrow> k st) = Some e"
          by (subst (asm) rep_loop.simps) simp
        then show ?thesis using iter True fwd_refl
          by (auto split: option.splits)
      next
        case False
        with nz mn0 res have
          "(case k st of Some e \<Rightarrow> Some e | None \<Rightarrow> f ?d (clear_caps gs st)) = Some e"
          by (subst (asm) rep_loop.simps) simp
        then show ?thesis using iter fwd_refl
          by (auto split: option.splits)
      qed
    qed
  qed
qed

lemma grp_k_fwd: "grp_k n st0 k st = Some e \<Longrightarrow> \<exists>st'. rest st' = rest st \<and> pre st' = pre st \<and> k st' = Some e"
proof -
  assume "grp_k n st0 k st = Some e"
  then have "k (MState (pre st) (rest st)
       ((n, take (length (rest st0) - length (rest st)) (rest st0)) # caps st)) = Some e"
    by simp
  then show ?thesis
    by (intro exI[of _ "MState (pre st) (rest st)
       ((n, take (length (rest st0) - length (rest st)) (rest st0)) # caps st)"]) simp
qed

lemma rxm_sound: "rxm ic r k st = Some e \<Longrightarrow> \<exists>st'. fwd st st' \<and> k st' = Some e"
proof (induction ic r k st arbitrary: e rule: rxm.induct)
  case (1 ic k st)
  then show ?case using fwd_refl by auto
next
  case (2 ic c k st)
  then show ?case using step1_sound by simp
next
  case (3 ic neg items k st)
  then show ?case using step1_sound by simp
next
  case (4 ic a b k st)
  from "4.prems" have "rxm ic a (rxm ic b k) st = Some e" by simp
  from "4.IH"(2)[OF this] obtain st1 where "fwd st st1" "rxm ic b k st1 = Some e" by blast
  moreover from "4.IH"(1)[OF this(2)] obtain st2 where "fwd st1 st2" "k st2 = Some e" by blast
  ultimately show ?case using fwd_trans by blast
next
  case (5 ic a b k st)
  then show ?case by (auto split: option.splits)
next
  case (6 ic g mn mx a k st)
  from "6.prems" have "rep_loop (rxm ic a) (groups a) g mn mx k st = Some e" by simp
  then show ?case
    by (rule rep_loop_sound[rotated]) (rule "6.IH")
next
  case (7 ic n a k st)
  from "7.prems" have "rxm ic a (grp_k n st k) st = Some e" by simp
  from "7.IH"[OF this] obtain st1 where f: "fwd st st1" and "grp_k n st k st1 = Some e" by blast
  from grp_k_fwd[OF this(2)] obtain st2 where "rest st2 = rest st1" "pre st2 = pre st1" "k st2 = Some e"
    by blast
  with f show ?case unfolding fwd_def by metis
next
  case (8 ic k st)
  then show ?case using fwd_refl by (auto split: if_splits)
next
  case (9 ic k st)
  then show ?case using fwd_refl by (auto split: if_splits)
next
  case (10 ic k st)
  then show ?case using fwd_refl by (auto split: if_splits)
qed


lemma lower_to_upper: "is_lower x \<Longrightarrow> is_upper (set_bit5 False x)"
  by (cases x) (auto simp: is_lower_def is_upper_def)

lemma to_upper_eq_nonletter:
  assumes "\<not> is_lower c" "\<not> is_upper c" "to_upper x = to_upper c"
  shows "x = c"
proof -
  from assms(1) have c: "to_upper c = c" by (simp add: to_upper_def)
  show ?thesis
  proof (cases "is_lower x")
    case True
    then have "is_upper (to_upper x)" by (simp add: to_upper_def lower_to_upper)
    with assms c show ?thesis by simp
  next
    case False
    with assms c show ?thesis by (simp add: to_upper_def)
  qed
qed

lemma step1_none: "(\<And>c. c \<in> set (rest st) \<Longrightarrow> \<not> P c) \<Longrightarrow> step1 P k st = None"
  by (cases st; cases "rest st") auto

lemma rxm_fail:
  assumes "\<And>st'. fwd st st' \<Longrightarrow> k st' = None"
  shows "rxm ic r k st = None"
proof (cases "rxm ic r k st")
  case None
  then show ?thesis .
next
  case (Some e)
  from rxm_sound[OF this] assms show ?thesis by auto
qed

lemma fwd_set: "fwd st st' \<Longrightarrow> set (rest st') \<subseteq> set (rest st)"
  by (auto simp: fwd_def)

lemma rxm_needs:
  "needs c r \<Longrightarrow> \<not> is_lower c \<Longrightarrow> \<not> is_upper c \<Longrightarrow> c \<notin> set (rest st) \<Longrightarrow> rxm ic r k st = None"
proof (induction r arbitrary: k st)
  case (Chr d)
  then have "\<And>x. x \<in> set (rest st) \<Longrightarrow> \<not> (if ic then to_upper x = to_upper d else x = d)"
    using to_upper_eq_nonletter by auto
  then show ?case by (simp add: step1_none)
next
  case (Seq a b)
  show ?case
  proof (cases "needs c a")
    case True
    with Seq show ?thesis by simp
  next
    case False
    with Seq.prems have nb: "needs c b" by simp
    have "rxm ic a (rxm ic b k) st = None"
    proof (rule rxm_fail)
      fix st' assume "fwd st st'"
      then have "c \<notin> set (rest st')" using Seq.prems(4) fwd_set by blast
      then show "rxm ic b k st' = None" using Seq.IH(2) nb Seq.prems by blast
    qed
    then show ?thesis by simp
  qed
next
  case (Alt a b)
  then show ?case by simp
next
  case (Rep g mn mx a)
  then have "0 < mn" "mx \<noteq> Some 0" "needs c a" by auto
  moreover have "c \<notin> set (rest (clear_caps (groups a) st))"
    using Rep.prems(4) by (cases st) simp
  ultimately show ?case using Rep.IH Rep.prems
    by (simp add: rep_loop.simps[of "rxm ic a"])
next
  case (Grp n a)
  then show ?case by simp
qed simp_all

lemma search_needs:
  "needs c r \<Longrightarrow> \<not> is_lower c \<Longrightarrow> \<not> is_upper c \<Longrightarrow> c \<notin> set s \<Longrightarrow> search ic r p s = None"
  by (induction s arbitrary: p) (simp_all add: rxm_needs)

declare gsub.simps [simp del]

lemma gsub_needs:
  "needs c r \<Longrightarrow> \<not> is_lower c \<Longrightarrow> \<not> is_upper c \<Longrightarrow> c \<notin> set s \<Longrightarrow> replace_all ic r f s = s"
  by (simp add: replace_all_def gsub.simps[of ic r f "[]" s] search_needs)

lemma search_sound:
  "search ic r p s = Some (q, e) \<Longrightarrow>
     \<exists>u v. s = u @ v \<and> q = rev u @ p \<and> rxm ic r Some (MState q v []) = Some e \<and> fwd (MState q v []) e"
proof (induction s arbitrary: p)
  case Nil
  then have r: "rxm ic r Some (MState p [] []) = Some e" and q: "q = p"
    by (auto split: option.splits)
  from rxm_sound[OF r] have "fwd (MState p [] []) e" by auto
  with r q show ?case by auto
next
  case (Cons c cs)
  show ?case
  proof (cases "rxm ic r Some (MState p (c # cs) [])")
    case None
    with Cons.prems have "search ic r (c # p) cs = Some (q, e)" by simp
    from Cons.IH[OF this] obtain u v where
      "cs = u @ v" "q = rev u @ c # p" "rxm ic r Some (MState q v []) = Some e" "fwd (MState q v []) e"
      by blast
    then show ?thesis by (intro exI[of _ "c # u"] exI[of _ v]) simp
  next
    case (Some e')
    with Cons.prems have q: "q = p" and e: "e' = e" by auto
    from rxm_sound[OF Some] have "fwd (MState p (c # cs) []) e'" by auto
    with Some q e show ?thesis by (intro exI[of _ "[]"] exI[of _ "c # cs"]) simp
  qed
qed

lemma gsub_chars:
  "set (gsub ic r (\<lambda>_ _. w) p s) \<subseteq> set s \<union> set w"
proof (induction ic r "\<lambda>(_::string) (_::nat \<Rightarrow> string). w" p s rule: gsub.induct)
  case (1 ic r p s)
  show ?case
  proof (cases "search ic r p s")
    case None
    then show ?thesis by (simp add: gsub.simps[of ic r _ p s])
  next
    case (Some qe)
    obtain q e where qe: "qe = (q, e)" by (cases qe)
    from search_sound[OF Some[unfolded qe]] obtain u v where
      s: "s = u @ v" and q: "q = rev u @ p" and f: "fwd (MState q v []) e" by blast
    from f obtain x where v: "v = x @ rest e" by (auto simp: fwd_def)
    have len: "length q - length p = length u" using q by simp
    have tk: "rev (take (length q - length p) q) = u" using q len by simp
    have dr: "drop (length q - length p) s = v" using s len by simp
    show ?thesis
    proof (cases "length (rest e) < length s - (length q - length p)")
      case True
      have eq: "gsub ic r (\<lambda>_ _. w) p s = u @ w @ gsub ic r (\<lambda>_ _. w) (pre e) (rest e)"
        by (subst gsub.simps) (simp add: Some qe True tk)
      from "1.hyps"(1)[OF Some qe[symmetric] True]
      have "set (gsub ic r (\<lambda>_ _. w) (pre e) (rest e)) \<subseteq> set (rest e) \<union> set w" .
      then have "set (gsub ic r (\<lambda>_ _. w) p s) \<subseteq> set u \<union> set w \<union> set (rest e)"
        by (auto simp: eq)
      moreover have "set u \<union> set (rest e) \<subseteq> set s" using s v by auto
      ultimately show ?thesis by blast
    next
      case False
      show ?thesis
      proof (cases v)
        case Nil
        have eq: "gsub ic r (\<lambda>_ _. w) p s = u @ w"
          by (subst gsub.simps) (simp add: Some qe False tk dr Nil)
        have "set (gsub ic r (\<lambda>_ _. w) p s) \<subseteq> set u \<union> set w" by (auto simp: eq)
        moreover have "set u \<subseteq> set s" using s by auto
        ultimately show ?thesis by blast
      next
        case (Cons c cs)
        have eq: "gsub ic r (\<lambda>_ _. w) p s = u @ w @ c # gsub ic r (\<lambda>_ _. w) (c # q) cs"
          by (subst gsub.simps) (simp add: Some qe False tk dr Cons)
        from "1.hyps"(2)[OF Some qe[symmetric] False] dr Cons
        have "set (gsub ic r (\<lambda>_ _. w) (c # q) cs) \<subseteq> set cs \<union> set w" by simp
        then have "set (gsub ic r (\<lambda>_ _. w) p s) \<subseteq> set u \<union> set w \<union> set (c # cs)"
          by (auto simp: eq)
        moreover have "set u \<union> set (c # cs) \<subseteq> set s" using s Cons by auto
        ultimately show ?thesis by blast
      qed
    qed
  qed
qed

lemma replace_all_chars: "c \<notin> set s \<Longrightarrow> c \<notin> set w \<Longrightarrow> c \<notin> set (replace_all ic r (\<lambda>_ _. w) s)"
  using gsub_chars[of ic r w "[]" s] by (auto simp: replace_all_def)

lemma star_greedy_all:
  "\<forall>c\<in>set s. P c \<Longrightarrow>
   rep_loop (step1 P) [] True 0 None Some (MState p s cs) = Some (MState (rev s @ p) [] cs)"
proof (induction s arbitrary: p)
  case Nil
  show ?case by (subst rep_loop.simps) simp
next
  case (Cons c s)
  then have "rep_loop (step1 P) [] True 0 None Some (MState (c # p) s cs) = Some (MState (rev s @ c # p) [] cs)"
    by simp
  with Cons.prems show ?case by (subst rep_loop.simps) simp
qed


lemma lt_not_letter: "\<not> is_lower CHR ''<''" "\<not> is_upper CHR ''<''"
  by (simp_all add: is_lower_def is_upper_def)

lemma no_lt_noop:
  "needs CHR ''<'' r \<Longrightarrow> CHR ''<'' \<notin> set s \<Longrightarrow> replace_all ic r f s = s"
  using gsub_needs lt_not_letter by blast

lemma cut_at_markers_noop:
  assumes "CHR ''<'' \<notin> set s"
  shows "cut_at True hr_marker s = s"
    and "cut_at True (p_marker h) s = s"
    and "cut_at True (h_marker h) s = s"
    and "cut_at True (b_marker h) s = s"
  using assms
  by (simp_all add: cut_at_def no_lt_noop hr_marker_def p_marker_def h_marker_def b_marker_def
      cat_def lit_def)

lemma strip_heading_noop: "CHR ''<'' \<notin> set s \<Longrightarrow> strip_heading s h = s"
  by (simp add: strip_heading_def cut_at_markers_noop)

lemma foldl_strip_heading_noop: "CHR ''<'' \<notin> set s \<Longrightarrow> foldl strip_heading s hs = s"
  by (induction hs) (simp_all add: strip_heading_noop)

lemma cut_at_no_lt: "CHR ''<'' \<notin> set s \<Longrightarrow> CHR ''<'' \<notin> set (cut_at ic mk s)"
  unfolding cut_at_def by (rule replace_all_chars) simp_all

lemma truncate_meta_no_lt: "CHR ''<'' \<notin> set s \<Longrightarrow> CHR ''<'' \<notin> set (truncate_meta s)"
  by (simp add: truncate_meta_def cut_at_markers_noop foldl_strip_heading_noop cut_at_no_lt)

lemma allowlist_noop: "CHR ''<'' \<notin> set s \<Longrightarrow> allowlist s = s"
  by (simp add: allowlist_def Let_def no_lt_noop anchor_rx_def attr_rx_def tagPattern_def
      cat_def lit_def)

lemma normalize_ws_no_lt:
  assumes "CHR ''<'' \<notin> set s"
  shows "CHR ''<'' \<notin> set (normalize_ws s)"
proof -
  let ?s1 = "replace_all False (Plus (Cls False [COne CHR '' '', COne (CHR 0x09)])) (const_repl '' '') s"
  let ?s2 = "replace_all False (Seq (Chr CHR ''>'') (Plus Sp)) (const_repl ''>'') ?s1"
  have 1: "CHR ''<'' \<notin> set ?s1" by (rule replace_all_chars[OF assms]) simp
  have 2: "CHR ''<'' \<notin> set ?s2" by (rule replace_all_chars[OF 1]) simp
  have "normalize_ws s = ?s2"
    using 2 by (simp add: normalize_ws_def Let_def no_lt_noop cat_def lit_def)
  with 2 show ?thesis by simp
qed

lemma rxm_Cls_fun: "rxm ic (Cls neg items) = step1 (\<lambda>x. cls_has ic items x \<noteq> neg)"
  by (intro ext) simp

lemma rxm_Chr_fun: "rxm ic (Chr c) = step1 (\<lambda>x. if ic then to_upper x = to_upper c else x = c)"
  by (intro ext) simp

lemma leading_all:
  assumes "CHR ''<'' \<notin> set s"
  shows "replace_first False leading_rx (const_repl []) s = []"
proof -
  have all: "\<forall>c\<in>set s. cls_has False [COne CHR ''<''] c \<noteq> True"
    using assms by (auto simp: cls_has_def)
  have "rxm False leading_rx Some (MState [] s []) = Some (MState (rev s) [] [])"
    using star_greedy_all[OF all, of "[]" "[]"] by (simp add: leading_rx_def rxm_Cls_fun)
  then have "search False leading_rx [] s = Some ([], MState (rev s) [] [])"
    by (cases s) simp_all
  then show ?thesis by (simp add: replace_first_def)
qed

lemma search_Some_cases:
  "search ic r p s = Some (q, e) \<Longrightarrow>
     (rxm ic r Some (MState p s []) = Some e \<and> q = p) \<or>
     (\<exists>c cs. s = c # cs \<and> rxm ic r Some (MState p s []) = None \<and> search ic r (c # p) cs = Some (q, e))"
  by (cases s) (auto split: option.splits)

lemma gsub_hit:
  assumes "rxm ic r Some (MState p s []) = Some e" "length (rest e) < length s"
  shows "gsub ic r f p s = f (matched p e) (grp e) @ gsub ic r f (pre e) (rest e)"
proof -
  from assms(1) have "search ic r p s = Some (p, e)" by (cases s) simp_all
  with assms(2) show ?thesis by (subst gsub.simps) simp
qed

lemma gsub_hit_empty:
  assumes "rxm ic r Some (MState p s []) = Some e" "\<not> length (rest e) < length s"
  shows "gsub ic r f p s =
           f (matched p e) (grp e) @ (case s of [] \<Rightarrow> [] | c # cs \<Rightarrow> c # gsub ic r f (c # p) cs)"
proof -
  from assms(1) have "search ic r p s = Some (p, e)" by (cases s) simp_all
  with assms(2) show ?thesis by (subst gsub.simps) simp
qed

lemma gsub_skip:
  assumes "rxm ic r Some (MState p (c # cs) []) = None"
  shows "gsub ic r f p (c # cs) = c # gsub ic r f (c # p) cs"
proof (cases "search ic r (c # p) cs")
  case None
  with assms have "search ic r p (c # cs) = None" by simp
  with None show ?thesis by (simp add: gsub.simps[of ic r f p] gsub.simps[of ic r f "c # p"])
next
  case (Some qe)
  obtain q e where qe: "qe = (q, e)" by (cases qe)
  from Some qe assms have s1: "search ic r p (c # cs) = Some (q, e)" by simp
  from search_sound[OF Some[unfolded qe]] obtain u v where
    cs: "cs = u @ v" and q: "q = rev u @ c # p" by blast
  have l1: "length q - length p = Suc (length u)" and l2: "length q - length (c # p) = length u"
    using q by simp_all
  have t1: "rev (take (length q - length p) q) = c # u" unfolding l1 q by simp
  have t2: "rev (take (length q - length (c # p)) q) = u" unfolding l2 q by simp
  show ?thesis
    unfolding gsub.simps[of ic r f p "c # cs"] gsub.simps[of ic r f "c # p" cs]
    using s1 Some qe t1 t2 l1 l2 by (simp add: cs)
qed

lemma gsub_Nil_const: "gsub ic r (\<lambda>_ _. []) p [] = []"
  by (subst gsub.simps) (auto split: option.splits)

lemma rxm_lit:
  "rxm False (lit w) k (MState p s cs) =
     (if take (length w) s = w then k (MState (rev w @ p) (drop (length w) s) cs) else None)"
proof (induction w arbitrary: p s)
  case Nil
  show ?case by (simp add: lit_def)
next
  case (Cons c w)
  have l: "lit (c # w) = Seq (Chr c) (lit w)" by (simp add: lit_def)
  show ?case
  proof (cases s)
    case Nil
    then show ?thesis by (simp add: l)
  next
    case (Cons x xs)
    then show ?thesis using Cons.IH[of "x # p" xs] by (auto simp add: l)
  qed
qed

lemma star_greedy_then:
  assumes "\<And>p' c r' cs'. P c \<Longrightarrow> k (MState p' (c # r') cs') = None"
  shows "rep_loop (step1 P) [] True 0 None k (MState p s cs) =
           k (MState (rev (takeWhile P s) @ p) (dropWhile P s) cs)"
proof (induction s arbitrary: p)
  case Nil
  show ?case by (subst rep_loop.simps) (simp split: option.splits)
next
  case (Cons c s)
  show ?case
  proof (cases "P c")
    case True
    have "k (MState p (c # s) cs) = None" using assms True by simp
    with True Cons[of "c # p"] show ?thesis
      by (subst rep_loop.simps) (simp split: option.splits)
  next
    case False
    then show ?thesis by (subst rep_loop.simps) (simp split: option.splits)
  qed
qed

lemma anych: "cls_has ic [CSpace, CNonSpace] c"
  by (auto simp: cls_has_def)



lemma gsub_lit:
  assumes "w \<noteq> []"
  shows "gsub False (lit w) (\<lambda>_ _. v) p s = subst_all w v s"
proof (induction s arbitrary: p rule: length_induct)
  case (1 s)
  show ?case
  proof (cases s)
    case Nil
    have "search False (lit w) p [] = None" using assms by (simp add: rxm_lit)
    then show ?thesis using Nil by (simp add: gsub.simps[of _ _ _ p "[]"])
  next
    case (Cons c cs)
    show ?thesis
    proof (cases "take (length w) s = w")
      case True
      then have r: "rxm False (lit w) Some (MState p s []) = Some (MState (rev w @ p) (drop (length w) s) [])"
        by (simp add: rxm_lit)
      have lt: "length (drop (length w) s) < length s" using assms Cons by simp
      from gsub_hit[OF r] lt
      have "gsub False (lit w) (\<lambda>_ _. v) p s = v @ gsub False (lit w) (\<lambda>_ _. v) (rev w @ p) (drop (length w) s)"
        by simp
      also have "gsub False (lit w) (\<lambda>_ _. v) (rev w @ p) (drop (length w) s) = subst_all w v (drop (length w) s)"
        using 1 lt by blast
      finally show ?thesis using True assms Cons by simp
    next
      case False
      then have r: "rxm False (lit w) Some (MState p (c # cs) []) = None"
        using Cons by (simp add: rxm_lit)
      have "gsub False (lit w) (\<lambda>_ _. v) (c # p) cs = subst_all w v cs"
        using 1 Cons by simp
      with gsub_skip[OF r] False Cons show ?thesis by simp
    qed
  qed
qed

lemma replace_all_lit: "w \<noteq> [] \<Longrightarrow> replace_all False (lit w) (\<lambda>_ _. v) s = subst_all w v s"
  by (simp add: replace_all_def gsub_lit)

lemma rxm_tag:
  "rxm False tag_rx Some (MState p (c # cs) []) =
     (if c = CHR ''<'' \<and> takeWhile (\<lambda>x. x \<noteq> CHR ''>'') cs \<noteq> [] \<and> dropWhile (\<lambda>x. x \<noteq> CHR ''>'') cs \<noteq> []
      then Some (MState (CHR ''>'' # rev (takeWhile (\<lambda>x. x \<noteq> CHR ''>'') cs) @ CHR ''<'' # p)
                   (tl (dropWhile (\<lambda>x. x \<noteq> CHR ''>'') cs)) [])
      else None)"
proof -
  let ?P = "\<lambda>x. x \<noteq> CHR ''>''"
  let ?k = "rxm False (Seq (Seq (Chr CHR ''>'') Eps) Eps) Some"
  have cls: "(\<lambda>x. \<not> cls_has False [COne CHR ''>''] x) = ?P"
    by (auto simp: cls_has_def)
  have star: "rep_loop (step1 ?P) [] True 0 None ?k (MState q s [])
           = ?k (MState (rev (takeWhile ?P s) @ q) (dropWhile ?P s) [])" for q s
    by (rule star_greedy_then) simp
  have k: "?k (MState q s []) = (case s of [] \<Rightarrow> None | x # xs \<Rightarrow> if x = CHR ''>'' then Some (MState (x # q) xs []) else None)" for q s
    by (cases s) simp_all
  have plus: "rep_loop (step1 ?P) [] True (Suc 0) None ?k (MState q s [])
      = (case s of [] \<Rightarrow> None | x # xs \<Rightarrow> if ?P x then rep_loop (step1 ?P) [] True 0 None ?k (MState (x # q) xs []) else None)" for q s
    by (subst rep_loop.simps) (cases s; simp)
  have dw: "dropWhile ?P s \<noteq> [] \<Longrightarrow> hd (dropWhile ?P s) = CHR ''>''" for s
    using hd_dropWhile[of ?P s] by simp
  show ?thesis
  proof (cases "c = CHR ''<''")
    case False
    then show ?thesis by (simp add: tag_rx_def cat_def lit_def)
  next
    case True
    show ?thesis
    proof (cases cs)
      case Nil
      with True show ?thesis
        by (simp add: tag_rx_def cat_def lit_def rxm_Cls_fun cls plus)
    next
      case (Cons x xs)
      show ?thesis
      proof (cases "?P x")
        case False
        with True Cons show ?thesis
          by (simp add: tag_rx_def cat_def lit_def rxm_Cls_fun cls plus)
      next
        case px: True
        show ?thesis
        proof (cases "dropWhile ?P xs")
          case dnil: Nil
          from True Cons px show ?thesis
            by (simp add: tag_rx_def cat_def lit_def rxm_Cls_fun cls plus star dnil
                del: dropWhile_eq_Nil_conv)
        next
          case dcons: (Cons y ys)
          then have "y = CHR ''>''" using dw[of xs] by simp
          with True Cons px show ?thesis
            by (simp add: tag_rx_def cat_def lit_def rxm_Cls_fun cls plus star dcons
                del: dropWhile_eq_Nil_conv)
        qed
      qed
    qed
  qed
qed

lemma gsub_tag: "gsub False tag_rx (\<lambda>_ _. []) p s = strip_tags s"
proof (induction s arbitrary: p rule: length_induct)
  case (1 s)
  show ?case
  proof (cases s)
    case Nil
    then show ?thesis by (simp add: gsub_Nil_const)
  next
    case (Cons c cs)
    let ?P = "\<lambda>x. x \<noteq> CHR ''>''"
    show ?thesis
    proof (cases "c = CHR ''<'' \<and> takeWhile ?P cs \<noteq> [] \<and> dropWhile ?P cs \<noteq> []")
      case True
      let ?e = "MState (CHR ''>'' # rev (takeWhile ?P cs) @ CHR ''<'' # p) (tl (dropWhile ?P cs)) []"
      from True have r: "rxm False tag_rx Some (MState p s []) = Some ?e"
        unfolding Cons by (subst rxm_tag) simp
      have "length (dropWhile ?P cs) \<le> length cs"
        by (rule length_dropWhile_le)
      then have lt: "length (rest ?e) < length s" using Cons by simp
      from gsub_hit[OF r lt]
      have "gsub False tag_rx (\<lambda>_ _. []) p s = gsub False tag_rx (\<lambda>_ _. []) (pre ?e) (rest ?e)"
        by simp
      also have "\<dots> = strip_tags (rest ?e)" using 1 lt by blast
      finally show ?thesis using True Cons by simp
    next
      case False
      then have r: "rxm False tag_rx Some (MState p (c # cs) []) = None"
        by (subst rxm_tag) auto
      have "gsub False tag_rx (\<lambda>_ _. []) (c # p) cs = strip_tags cs"
        using 1 Cons by simp
      with gsub_skip[OF r] False Cons show ?thesis by auto
    qed
  qed
qed

lemma title_text_eq: "title_text s = trim (replace_entities (strip_tags s))"
proof -
  have "replace_all False tag_rx (\<lambda>_ _. []) s = strip_tags s"
    using gsub_tag[of "[]" s] by (simp add: replace_all_def)
  then show ?thesis
    by (simp add: title_text_def replace_entities_def replace_all_lit)
qed


text \<open>The pattern of \<^verbatim>\<open>processMarkdown\<close> matches a leading frontmatter block and nothing else.\<close>

lemma after_first_length: "after_first w s = Some b \<Longrightarrow> length b \<le> length s"
  by (induction s) (auto split: if_splits)

lemma take_eq_length: "take (length w) s = w \<Longrightarrow> length w \<le> length s"
proof -
  assume "take (length w) s = w"
  then have "length (take (length w) s) = length w" by simp
  then show ?thesis by (simp add: min_def split: if_splits)
qed

lemma lazy_any_lit:
  "rep_loop (step1 (\<lambda>x. True)) [] False 0 None (rxm False (lit w) Some) (MState p s cs) =
     (case after_first w s of
        None \<Rightarrow> None
      | Some b \<Rightarrow> Some (MState (rev (take (length s - length b) s) @ p) b cs))"
proof (induction s arbitrary: p)
  case Nil
  show ?case by (subst rep_loop.simps) (simp add: rxm_lit)
next
  case (Cons c s)
  show ?case
  proof (cases "take (length w) (c # s) = w")
    case True
    from take_eq_length[OF True]
    have "take (length (c # s) - length (drop (length w) (c # s))) (c # s) = w"
      using True by simp
    with True show ?thesis
      by (subst rep_loop.simps) (simp add: rxm_lit del: take_Suc_Cons drop_Suc_Cons)
  next
    case False
    show ?thesis
    proof (cases "after_first w s")
      case None
      with False Cons[of "c # p"] show ?thesis
        by (subst rep_loop.simps) (simp add: rxm_lit)
    next
      case (Some b)
      from after_first_length[OF Some] have "Suc (length s) - length b = Suc (length s - length b)"
        by simp
      with Some False Cons[of "c # p"] show ?thesis
        by (subst rep_loop.simps) (simp add: rxm_lit)
    qed
  qed
qed

lemma rxm_Seq_fun: "rxm ic (Seq a b) k = rxm ic a (rxm ic b k)"
  by (intro ext) simp

lemma rxm_Eps_fun: "rxm ic Eps k = k"
  by (intro ext) simp

lemma fm_rx:
  "rxm False frontmatterRegex_strip Some (MState p s []) =
     (if p = [] \<and> take 4 s = ''---'' @ [NL]
      then (case after_first (NL # ''---'' @ [NL]) (drop 4 s) of
              None \<Rightarrow> None
            | Some b \<Rightarrow> Some (MState (rev (take (length s - length b) s)) b []))
      else None)"
proof -
  have f: "rxm False frontmatterRegex_strip Some =
           rxm False (Seq Bol (Seq (lit (''---'' @ [NL])) (Seq (LazyStar AnyCh) (lit (NL # ''---'' @ [NL]))))) Some"
    by (simp only: frontmatterRegex_strip_def cat_def lit_def foldr.simps o_apply id_apply append.simps
        rxm_Seq_fun rxm_Eps_fun)
  have four: "length (''---'' @ [NL]) = 4" by simp
  note L1 = rxm_lit[of "''---'' @ [NL]", unfolded four]
  have star: "rxm False (Seq (LazyStar AnyCh) (lit (NL # ''---'' @ [NL]))) Some (MState p' s' []) =
      (case after_first (NL # ''---'' @ [NL]) s' of
        None \<Rightarrow> None
      | Some b \<Rightarrow> Some (MState (rev (take (length s' - length b) s') @ p') b []))" for p' s'
    by (simp add: rxm_Cls_fun anych lazy_any_lit)
  show ?thesis
  proof (cases "p = [] \<and> take 4 s = ''---'' @ [NL]")
    case False
    then show ?thesis
      unfolding f
      by (auto simp only: rxm.simps(4)[of _ Bol] rxm.simps(4)[of _ "lit (''---'' @ [NL])"]
          rxm.simps(8) L1 mstate.sel split: if_splits)
  next
    case True
    from True have l: "4 \<le> length s" using take_eq_length[of "''---'' @ [NL]" s] by (simp only: four)
    have t: "rev (take (length s - length b) s) = rev (take (length (drop 4 s) - length b) (drop 4 s)) @ rev (''---'' @ [NL])"
      if "length b \<le> length (drop 4 s)" for b
    proof -
      from that l have "length s - length b = 4 + (length s - 4 - length b)" by simp
      then have "take (length s - length b) s = take 4 s @ take (length s - 4 - length b) (drop 4 s)"
        by (simp only: take_add)
      with True show ?thesis by simp
    qed
    have "rxm False frontmatterRegex_strip Some (MState p s []) =
          rxm False (Seq (LazyStar AnyCh) (lit (NL # ''---'' @ [NL]))) Some
            (MState (rev (''---'' @ [NL]) @ []) (drop 4 s) [])"
      unfolding f using True by (simp only: rxm.simps(4)[of _ Bol] rxm.simps(4)[of _ "lit (''---'' @ [NL])"] rxm.simps(8) L1 mstate.sel if_True simp_thms)
    also have "\<dots> = (case after_first (NL # ''---'' @ [NL]) (drop 4 s) of
        None \<Rightarrow> None
      | Some b \<Rightarrow> Some (MState (rev (take (length (drop 4 s) - length b) (drop 4 s)) @ rev (''---'' @ [NL]) @ []) b []))"
      by (rule star)
    also have "\<dots> = (case after_first (NL # ''---'' @ [NL]) (drop 4 s) of
        None \<Rightarrow> None
      | Some b \<Rightarrow> Some (MState (rev (take (length s - length b) s)) b []))"
    proof (cases "after_first (NL # ''---'' @ [NL]) (drop 4 s)")
      case None
      then show ?thesis by simp
    next
      case (Some b)
      from t[OF after_first_length[OF Some]] Some show ?thesis by simp
    qed
    finally show ?thesis using True by (simp only: if_True simp_thms)
  qed
qed

lemma search_bol: "p \<noteq> [] \<Longrightarrow> search False frontmatterRegex_strip p s = None"
  by (induction s arbitrary: p) (simp_all add: fm_rx)

lemma processMarkdown_strip: "processMarkdown content = trim (strip_frontmatter content)"
proof -
  have "replace_first False frontmatterRegex_strip (const_repl []) content = strip_frontmatter content"
    by (cases content)
       (auto simp: replace_first_def strip_frontmatter_def fm_rx search_bol split: option.splits)
  then show ?thesis by (simp add: processMarkdown_def)
qed

lemma path_okI:
  "(\<And>k st y. rest st = u @ y \<Longrightarrow>
       (\<And>st1. rest st1 = y \<Longrightarrow> pre st1 = rev u @ pre st \<Longrightarrow> k st1 \<noteq> None) \<Longrightarrow> f k st \<noteq> None)
   \<Longrightarrow> path_ok f u"
  unfolding path_ok_def by blast

lemma path_okD:
  "path_ok f u \<Longrightarrow> rest st = u @ y \<Longrightarrow>
     (\<And>st1. rest st1 = y \<Longrightarrow> pre st1 = rev u @ pre st \<Longrightarrow> k st1 \<noteq> None) \<Longrightarrow> f k st \<noteq> None"
  unfolding path_ok_def by blast

lemma pathI:
  "rest st = u @ rest st1 \<Longrightarrow> pre st1 = rev u @ pre st \<Longrightarrow> k st1 = Some e \<Longrightarrow> path_ok f u \<Longrightarrow>
   \<exists>u st1. rest st = u @ rest st1 \<and> pre st1 = rev u @ pre st \<and> k st1 = Some e \<and> path_ok f u"
  by blast

lemma rest_clear [simp]: "rest (clear_caps gs st) = rest st"
  by (cases st) simp

lemma pre_clear [simp]: "pre (clear_caps gs st) = pre st"
  by (cases st) simp

lemma step1_path:
  assumes "step1 P k st = Some e"
  shows "\<exists>u st1. rest st = u @ rest st1 \<and> pre st1 = rev u @ pre st \<and> k st1 = Some e \<and> path_ok (step1 P) u"
proof (cases st)
  case (MState p r cs)
  show ?thesis
  proof (cases r)
    case Nil
    with assms MState show ?thesis by simp
  next
    case (Cons c r')
    with assms MState have pc: "P c" and ke: "k (MState (c # p) r' cs) = Some e"
      by (auto split: if_splits)
    have "path_ok (step1 P) [c]"
    proof (rule path_okI)
      fix k' :: cont and st' y
      assume r: "rest st' = [c] @ y"
        and k: "\<And>st1. rest st1 = y \<Longrightarrow> pre st1 = rev [c] @ pre st' \<Longrightarrow> k' st1 \<noteq> None"
      obtain p' r'' cs' where st': "st' = MState p' r'' cs'" by (cases st')
      with r have "r'' = c # y" by simp
      with st' pc k[of "MState (c # p') y cs'"] show "step1 P k' st' \<noteq> None" by simp
    qed
    with ke MState Cons show ?thesis
      by (intro exI[of _ "[c]"] exI[of _ "MState (c # p) r' cs"]) simp
  qed
qed

lemma path_ok_seq:
  assumes "path_ok f u1" "path_ok h u2"
  shows "path_ok (\<lambda>k. f (h k)) (u1 @ u2)"
proof (rule path_okI)
  fix k :: cont and st y
  assume r: "rest st = (u1 @ u2) @ y"
    and k: "\<And>st1. rest st1 = y \<Longrightarrow> pre st1 = rev (u1 @ u2) @ pre st \<Longrightarrow> k st1 \<noteq> None"
  show "f (h k) st \<noteq> None"
  proof (rule path_okD[OF assms(1), of st "u2 @ y"])
    show "rest st = u1 @ u2 @ y" using r by simp
  next
    fix st1 assume a: "rest st1 = u2 @ y" "pre st1 = rev u1 @ pre st"
    show "h k st1 \<noteq> None"
    proof (rule path_okD[OF assms(2) a(1)])
      fix st2 assume "rest st2 = y" "pre st2 = rev u2 @ pre st1"
      with a k[of st2] show "k st2 \<noteq> None" by simp
    qed
  qed
qed

lemma rep_path_nil:
  assumes "mx = Some 0 \<or> mn = 0"
  shows "path_ok (rep_loop f gs g mn mx) []"
proof (rule path_okI)
  fix k :: cont and st y
  assume "rest st = [] @ y"
    and k: "\<And>st1. rest st1 = y \<Longrightarrow> pre st1 = rev [] @ pre st \<Longrightarrow> k st1 \<noteq> None"
  then have "k st \<noteq> None" by simp
  with assms show "rep_loop f gs g mn mx k st \<noteq> None"
    by (subst rep_loop.simps) (auto split: option.splits)
qed

lemma rep_path_step:
  assumes nz: "mx \<noteq> Some 0" and ne: "0 < mn \<or> u1 \<noteq> []"
    and f: "path_ok f u1" and r: "path_ok (rep_loop f gs g (mn - 1) (dec_max mx)) u2"
  shows "path_ok (rep_loop f gs g mn mx) (u1 @ u2)"
proof (rule path_okI)
  fix k :: cont and st y
  assume rs: "rest st = (u1 @ u2) @ y"
    and k: "\<And>st1. rest st1 = y \<Longrightarrow> pre st1 = rev (u1 @ u2) @ pre st \<Longrightarrow> k st1 \<noteq> None"
  have inner: "rep_loop f gs g (mn - 1) (dec_max mx) k st1 \<noteq> None"
    if a: "rest st1 = u2 @ y" "pre st1 = rev u1 @ pre st" for st1
  proof (rule path_okD[OF r a(1)])
    fix st2 assume "rest st2 = y" "pre st2 = rev u2 @ pre st1"
    with a k[of st2] show "k st2 \<noteq> None" by simp
  qed
  show "rep_loop f gs g mn mx k st \<noteq> None"
  proof (cases "0 < mn")
    case True
    have "f (\<lambda>st'. rep_loop f gs g (mn - 1) (dec_max mx) k st') (clear_caps gs st) \<noteq> None"
      by (rule path_okD[OF f, of _ "u2 @ y"]) (use rs inner in simp_all)
    with nz True show ?thesis by (subst rep_loop.simps) simp
  next
    case False
    then have mn0: "mn = 0" and u1: "u1 \<noteq> []" using ne by auto
    let ?d = "\<lambda>st'. if length (rest st') < length (rest st)
                      then rep_loop f gs g 0 (dec_max mx) k st' else None"
    have "f ?d (clear_caps gs st) \<noteq> None"
    proof (rule path_okD[OF f, of _ "u2 @ y"])
      show "rest (clear_caps gs st) = u1 @ u2 @ y" using rs by simp
    next
      fix st1 assume a: "rest st1 = u2 @ y" "pre st1 = rev u1 @ pre (clear_caps gs st)"
      then have "length (rest st1) < length (rest st)" using rs u1 by simp
      moreover have "rep_loop f gs g 0 (dec_max mx) k st1 \<noteq> None"
        using inner[of st1] a mn0 by simp
      ultimately show "?d st1 \<noteq> None" by simp
    qed
    with nz mn0 show ?thesis
      by (subst rep_loop.simps) (auto split: option.splits)
  qed
qed

lemma rep_loop_path:
  "(\<And>k st e. f k st = Some e \<Longrightarrow>
      \<exists>u st1. rest st = u @ rest st1 \<and> pre st1 = rev u @ pre st \<and> k st1 = Some e \<and> path_ok f u) \<Longrightarrow>
   rep_loop f gs g mn mx k st = Some e \<Longrightarrow>
   \<exists>u st1. rest st = u @ rest st1 \<and> pre st1 = rev u @ pre st \<and> k st1 = Some e
       \<and> path_ok (rep_loop f gs g mn mx) u"
proof (induction f gs g mn mx k st rule: rep_loop.induct)
  case (1 f gs g mn mx k st)
  note IH = "1.IH" and atom = "1.prems"(1) and res = "1.prems"(2)
  have here: ?case if "k st = Some e" "mx = Some 0 \<or> mn = 0"
    using that rep_path_nil[OF that(2), of f gs g]
    by (intro exI[of _ "[]"] exI[of _ st]) simp
  show ?case
  proof (cases "mx = Some 0")
    case True
    with res have "k st = Some e" by (subst (asm) rep_loop.simps) simp
    with True here show ?thesis by blast
  next
    case nz: False
    show ?thesis
    proof (cases "0 < mn")
      case True
      with nz res have "f (\<lambda>st'. rep_loop f gs g (mn - 1) (dec_max mx) k st') (clear_caps gs st) = Some e"
        by (subst (asm) rep_loop.simps) simp
      from atom[OF this] obtain u1 st1 where
        a: "rest st = u1 @ rest st1" "pre st1 = rev u1 @ pre st"
           "rep_loop f gs g (mn - 1) (dec_max mx) k st1 = Some e" "path_ok f u1"
        by auto
      from IH(1)[OF nz True atom a(3)] obtain u2 st2 where
        b: "rest st1 = u2 @ rest st2" "pre st2 = rev u2 @ pre st1" "k st2 = Some e"
           "path_ok (rep_loop f gs g (mn - 1) (dec_max mx)) u2"
        by blast
      have "path_ok (rep_loop f gs g mn mx) (u1 @ u2)"
        using rep_path_step[OF nz _ a(4) b(4)] True by simp
      with a b show ?thesis
        by (intro exI[of _ "u1 @ u2"] exI[of _ st2]) simp
    next
      case mn0: False
      let ?d = "\<lambda>st'. if length (rest st') < length (rest st)
                        then rep_loop f gs g 0 (dec_max mx) k st' else None"
      have iter: ?thesis if it: "f ?d (clear_caps gs st) = Some e" and c: "g \<or> k st = None"
      proof -
        from atom[OF it] obtain u1 st1 where
          a: "rest st = u1 @ rest st1" "pre st1 = rev u1 @ pre st" "?d st1 = Some e" "path_ok f u1"
          by auto
        from a(3) have lt: "length (rest st1) < length (rest st)"
          and r2: "rep_loop f gs g 0 (dec_max mx) k st1 = Some e"
          by (auto split: if_splits)
        from lt a(1) have u1: "u1 \<noteq> []" by auto
        have "\<exists>u st2. rest st1 = u @ rest st2 \<and> pre st2 = rev u @ pre st1 \<and> k st2 = Some e
                \<and> path_ok (rep_loop f gs g 0 (dec_max mx)) u"
        proof (cases g)
          case True
          from IH(2)[OF nz mn0 True lt atom r2] show ?thesis .
        next
          case False
          with c have "k st = None" by simp
          from IH(3)[OF nz mn0 False this lt atom r2] show ?thesis .
        qed
        then obtain u2 st2 where
          b: "rest st1 = u2 @ rest st2" "pre st2 = rev u2 @ pre st1" "k st2 = Some e"
             "path_ok (rep_loop f gs g 0 (dec_max mx)) u2"
          by blast
        have "path_ok (rep_loop f gs g mn mx) (u1 @ u2)"
          using rep_path_step[OF nz _ a(4), of mn gs g u2] u1 b(4) mn0 by simp
        with a b show ?thesis
          by (intro exI[of _ "u1 @ u2"] exI[of _ st2]) simp
      qed
      show ?thesis
      proof (cases g)
        case True
        with nz mn0 res have
          "(case f ?d (clear_caps gs st) of Some e \<Rightarrow> Some e | None \<Rightarrow> k st) = Some e"
          by (subst (asm) rep_loop.simps) simp
        then show ?thesis using iter True here mn0
          by (auto split: option.splits)
      next
        case False
        with nz mn0 res have
          "(case k st of Some e \<Rightarrow> Some e | None \<Rightarrow> f ?d (clear_caps gs st)) = Some e"
          by (subst (asm) rep_loop.simps) simp
        then show ?thesis using iter here mn0
          by (auto split: option.splits)
      qed
    qed
  qed
qed

lemma rxm_path:
  "no_anchor r \<Longrightarrow> rxm ic r k st = Some e \<Longrightarrow>
   \<exists>u st1. rest st = u @ rest st1 \<and> pre st1 = rev u @ pre st \<and> k st1 = Some e \<and> path_ok (rxm ic r) u"
proof (induction ic r k st arbitrary: e rule: rxm.induct)
  case (1 ic k st)
  have pe: "path_ok (rxm ic Eps) []" by (rule path_okI) simp
  from 1 have ke: "k st = Some e" by simp
  show ?case
  proof (intro exI conjI)
    show "rest st = [] @ rest st" by simp
    show "pre st = rev [] @ pre st" by simp
    show "k st = Some e" by (rule ke)
    show "path_ok (rxm ic Eps) []" by (rule pe)
  qed
next
  case (2 ic c k st)
  then show ?case using step1_path by (simp add: rxm_Chr_fun)
next
  case (3 ic neg items k st)
  then show ?case using step1_path by (simp add: rxm_Cls_fun)
next
  case (4 ic a b k st)
  from "4.prems" have na: "no_anchor a" and nb: "no_anchor b"
    and r: "rxm ic a (rxm ic b k) st = Some e" by simp_all
  from "4.IH"(2)[OF na r] obtain u1 st1 where
    a: "rest st = u1 @ rest st1" "pre st1 = rev u1 @ pre st" "rxm ic b k st1 = Some e"
       "path_ok (rxm ic a) u1" by blast
  from "4.IH"(1)[OF nb a(3)] obtain u2 st2 where
    b: "rest st1 = u2 @ rest st2" "pre st2 = rev u2 @ pre st1" "k st2 = Some e"
       "path_ok (rxm ic b) u2" by blast
  have "rxm ic (Seq a b) = (\<lambda>k. rxm ic a (rxm ic b k))" by (intro ext) simp
  with path_ok_seq[OF a(4) b(4)] have p: "path_ok (rxm ic (Seq a b)) (u1 @ u2)" by simp
  show ?case
  proof (rule pathI)
    show "rest st = (u1 @ u2) @ rest st2" using a b by simp
    show "pre st2 = rev (u1 @ u2) @ pre st" using a b by simp
    show "k st2 = Some e" by (rule b(3))
    show "path_ok (rxm ic (Seq a b)) (u1 @ u2)" by (rule p)
  qed
next
  case (5 ic a b k st)
  from "5.prems" have na: "no_anchor a" and nb: "no_anchor b" by simp_all
  show ?case
  proof (cases "rxm ic a k st")
    case None
    with "5.prems" have "rxm ic b k st = Some e" by simp
    from "5.IH"(2)[OF None nb this] obtain u st1 where
      b: "rest st = u @ rest st1" "pre st1 = rev u @ pre st" "k st1 = Some e" "path_ok (rxm ic b) u"
      by blast
    have "path_ok (rxm ic (Alt a b)) u"
    proof (rule path_okI)
      fix k' :: cont and st' y
      assume r: "rest st' = u @ y"
        and k: "\<And>st1. rest st1 = y \<Longrightarrow> pre st1 = rev u @ pre st' \<Longrightarrow> k' st1 \<noteq> None"
      have "rxm ic b k' st' \<noteq> None" by (rule path_okD[OF b(4) r]) (rule k)
      then show "rxm ic (Alt a b) k' st' \<noteq> None"
        by (auto split: option.splits)
    qed
    with b show ?thesis by blast
  next
    case (Some e')
    with "5.prems" have "rxm ic a k st = Some e" by simp
    from "5.IH"(1)[OF na this] obtain u st1 where
      b: "rest st = u @ rest st1" "pre st1 = rev u @ pre st" "k st1 = Some e" "path_ok (rxm ic a) u"
      by blast
    have "path_ok (rxm ic (Alt a b)) u"
    proof (rule path_okI)
      fix k' :: cont and st' y
      assume r: "rest st' = u @ y"
        and k: "\<And>st1. rest st1 = y \<Longrightarrow> pre st1 = rev u @ pre st' \<Longrightarrow> k' st1 \<noteq> None"
      have "rxm ic a k' st' \<noteq> None" by (rule path_okD[OF b(4) r]) (rule k)
      then show "rxm ic (Alt a b) k' st' \<noteq> None"
        by (auto split: option.splits)
    qed
    with b show ?thesis by blast
  qed
next
  case (6 ic g mn mx a k st)
  from "6.prems" have na: "no_anchor a"
    and r: "rep_loop (rxm ic a) (groups a) g mn mx k st = Some e" by simp_all
  have eq: "rxm ic (Rep g mn mx a) = rep_loop (rxm ic a) (groups a) g mn mx" by (intro ext) simp
  show ?case unfolding eq
    by (rule rep_loop_path[OF _ r]) (rule "6.IH"[OF na])
next
  case (7 ic n a k st)
  from "7.prems" have na: "no_anchor a" and r: "rxm ic a (grp_k n st k) st = Some e" by simp_all
  from "7.IH"[OF na r] obtain u st1 where
    a: "rest st = u @ rest st1" "pre st1 = rev u @ pre st" "grp_k n st k st1 = Some e"
       "path_ok (rxm ic a) u" by blast
  let ?st2 = "MState (pre st1) (rest st1) ((n, take (length (rest st) - length (rest st1)) (rest st)) # caps st1)"
  from a(3) have k2: "k ?st2 = Some e" by simp
  have p: "path_ok (rxm ic (Grp n a)) u"
  proof (rule path_okI)
    fix k' :: cont and st' y
    assume r: "rest st' = u @ y"
      and k: "\<And>st1. rest st1 = y \<Longrightarrow> pre st1 = rev u @ pre st' \<Longrightarrow> k' st1 \<noteq> None"
    have "rxm ic a (grp_k n st' k') st' \<noteq> None"
      by (rule path_okD[OF a(4) r]) (simp add: k)
    then show "rxm ic (Grp n a) k' st' \<noteq> None" by simp
  qed
  show ?case
  proof (rule pathI)
    show "rest st = u @ rest ?st2" using a by simp
    show "pre ?st2 = rev u @ pre st" using a by simp
    show "k ?st2 = Some e" by (rule k2)
    show "path_ok (rxm ic (Grp n a)) u" by (rule p)
  qed
next
  case (8 ic k st)
  then show ?case by simp
next
  case (9 ic k st)
  then show ?case by simp
next
  case (10 ic k st)
  then show ?case by simp
qed






lemma first_occ_le: "first_occ ic r p s \<le> length s"
  by (induction s arbitrary: p) simp_all


lemma first_occ_miss:
  "j < first_occ ic r p s \<Longrightarrow> rxm ic r Some (MState (rev (take j s) @ p) (drop j s) []) = None"
proof (induction s arbitrary: p j)
  case Nil
  then show ?case by simp
next
  case (Cons c cs)
  then have n: "rxm ic r Some (MState p (c # cs) []) = None"
    and f: "first_occ ic r p (c # cs) = Suc (first_occ ic r (c # p) cs)"
    by (auto split: if_splits)
  show ?case
  proof (cases j)
    case 0
    with n show ?thesis by simp
  next
    case (Suc j')
    with Cons.prems f have "j' < first_occ ic r (c # p) cs" by simp
    from Cons.IH[OF this] Suc show ?thesis by simp
  qed
qed












lemma search_first_occ:
  "search ic r p s = Some (q, e) \<Longrightarrow>
     q = rev (take (first_occ ic r p s) s) @ p
     \<and> rxm ic r Some (MState q (drop (first_occ ic r p s) s) []) = Some e"
proof (induction s arbitrary: p)
  case Nil
  then show ?case by (auto split: option.splits)
next
  case (Cons c cs)
  show ?case
  proof (cases "rxm ic r Some (MState p (c # cs) [])")
    case None
    with Cons.prems have "search ic r (c # p) cs = Some (q, e)" by simp
    from Cons.IH[OF this] have a: "q = rev (take (first_occ ic r (c # p) cs) cs) @ c # p"
      and b: "rxm ic r Some (MState q (drop (first_occ ic r (c # p) cs) cs) []) = Some e"
      by blast+
    have fo: "first_occ ic r p (c # cs) = Suc (first_occ ic r (c # p) cs)" using None by simp
    show ?thesis unfolding fo
    proof (intro conjI)
      show "q = rev (take (Suc (first_occ ic r (c # p) cs)) (c # cs)) @ p" using a by simp
      show "rxm ic r Some (MState q (drop (Suc (first_occ ic r (c # p) cs)) (c # cs)) []) = Some e"
        using b by (simp only: drop_Suc_Cons)
    qed
  next
    case (Some e')
    with Cons.prems have "q = p" "e' = e" by simp_all
    moreover have "first_occ ic r p (c # cs) = 0" using Some by simp
    ultimately show ?thesis using Some by (simp only: take_0 drop_0 rev.simps append_Nil simp_thms)
  qed
qed

lemma str_replace_at:
  "u \<noteq> [] \<Longrightarrow> (\<And>j. j < length a \<Longrightarrow> take (length u) (drop j (a @ u @ b)) \<noteq> u) \<Longrightarrow>
   str_replace u [] (a @ u @ b) = a @ b"
proof (induction a)
  case Nil
  then obtain c u' where "u = c # u'" by (cases u) auto
  then show ?case by simp
next
  case (Cons x a)
  from Cons.prems(2)[of 0] have 0: "take (length u) (x # a @ u @ b) \<noteq> u" by simp
  have "take (length u) (drop j (a @ u @ b)) \<noteq> u" if "j < length a" for j
    using Cons.prems(2)[of "Suc j"] that by simp
  from Cons.IH[OF Cons.prems(1) this] 0 show ?case by simp
qed

lemma elem_decomp:
  assumes na: "no_anchor r" and nd: "needs c r" "\<not> is_lower c" "\<not> is_upper c"
    and m: "rmatch ic r html = Some (el, g)"
  shows "\<exists>a b. html = a @ el @ b \<and> el \<noteq> [] \<and> (\<forall>j<length a. \<not> occurs ic r html j)
           \<and> str_replace el [] html = a @ b"
proof -
  from m obtain q e where s: "search ic r [] html = Some (q, e)" and el: "el = matched q e"
    by (auto simp: rmatch_def split: option.splits)
  let ?n = "first_occ ic r [] html"
  from search_first_occ[OF s] have q: "q = rev (take ?n html) @ []"
    and r: "rxm ic r Some (MState q (drop ?n html) []) = Some e" by blast+
  from rxm_path[OF na r] obtain u where
    u: "drop ?n html = u @ rest e" "pre e = rev u @ q" and p: "path_ok (rxm ic r) u"
    by auto
  have elu: "el = u" unfolding el matched_def u(2) by simp
  have html: "html = take ?n html @ u @ rest e"
    using u(1) by (metis append_take_drop_id)
  have ne: "u \<noteq> []"
  proof
    assume "u = []"
    with p have "rxm ic r Some (MState [] [] []) \<noteq> None"
      by (intro path_okD[of "rxm ic r" "[]" "MState [] [] []" "[]" Some]) simp_all
    moreover have "rxm ic r Some (MState [] [] []) = None"
      by (rule rxm_needs[OF nd]) simp
    ultimately show False by simp
  qed
  have len: "length (take ?n html) = ?n" using first_occ_le[of ic r "[]" html] by simp
  have miss: "\<not> occurs ic r html j" if "j < length (take ?n html)" for j
    using first_occ_miss[of j ic r "[]" html] that len by (simp add: occurs_def)
  have notext: "take (length u) (drop j (take ?n html @ u @ rest e)) \<noteq> u" if j: "j < length (take ?n html)" for j
  proof
    assume "take (length u) (drop j (take ?n html @ u @ rest e)) = u"
    then have "take (length u) (drop j html) = u" using html by simp
    then have d: "drop j html = u @ drop (length u) (drop j html)"
      by (metis append_take_drop_id)
    have "rxm ic r Some (MState (rev (take j html)) (drop j html) []) \<noteq> None"
      by (rule path_okD[OF p, of _ "drop (length u) (drop j html)"]) (use d in simp_all)
    moreover have "j < length html" using j by simp
    ultimately have "occurs ic r html j" by (simp add: occurs_def)
    with miss[OF j] show False by simp
  qed
  have "str_replace u [] (take ?n html @ u @ rest e) = take ?n html @ rest e"
    by (rule str_replace_at[OF ne]) (rule notext)
  then have sr: "str_replace el [] html = take ?n html @ rest e" using html elu by simp
  have h: "html = take ?n html @ el @ rest e" using html elu by simp
  have e: "el \<noteq> []" using ne elu by simp
  have "html = take ?n html @ el @ rest e \<and> el \<noteq> []
          \<and> (\<forall>j<length (take ?n html). \<not> occurs ic r html j)
          \<and> str_replace el [] html = take ?n html @ rest e"
    using h e miss sr by blast
  then show ?thesis by blast
qed

lemma heading_rx_props:
  "no_anchor h1_rx" "no_anchor h2_rx" "needs CHR ''<'' h1_rx" "needs CHR ''<'' h2_rx"
  by (simp_all add: h1_rx_def h2_rx_def cat_def lit_def)

lemma match_elem_decomp:
  assumes "r = h1_rx \<or> r = h2_rx" "match_elem r html = Some (el, inner)"
  shows "\<exists>a b. html = a @ el @ b \<and> el \<noteq> [] \<and> (\<forall>j<length a. \<not> occurs True r html j)
           \<and> str_replace el [] html = a @ b"
proof -
  from assms(2) obtain g where m: "rmatch True r html = Some (el, g)"
    by (auto simp: match_elem_def)
  from assms(1) have "no_anchor r" "needs CHR ''<'' r" using heading_rx_props by auto
  from elem_decomp[OF this lt_not_letter m] show ?thesis .
qed


section \<open>The format dispatcher\<close>

text \<open>
  C7. \<^verbatim>\<open>processDocument\<close> fails with the unsupported-format error exactly when the
  content type is none of the seven recognised ones and the file name does not end in
  \<^verbatim>\<open>.md\<close>; with an unrecognised type and a name ending in \<^verbatim>\<open>.md\<close> the content is
  processed as markdown.
\<close>

theorem processDocument_unsupported:
  "((\<exists>msg. processDocument env content mimeType fileName = Inl (UnsupportedFormat msg))
      \<longleftrightarrow> (mimeType \<notin> set recognizedTypes \<and> \<not> ends_with fileName ''.md''))
   \<and> (mimeType \<notin> set recognizedTypes \<and> ends_with fileName ''.md''
      \<longrightarrow> processDocument env content mimeType fileName = Inr (processMarkdown (toString env content)))"
  by (auto simp: processDocument_def processWordDocument_def processPdfDocument_def
      recognizedTypes_def split: sum.splits content.splits)

theorem processDocument_unsupported_witness:
  "processDocument test_env (Str '' # Title '') ''image/png'' ''logo.png'' = Inl (UnsupportedFormat ''image/png'')
   \<and> processDocument test_env (Str '' # Title '') ''application/octet-stream'' ''notes.md'' = Inr ''# Title''"
proof -
  have 1: "''image/png'' \<notin> set recognizedTypes \<and> \<not> ends_with ''logo.png'' ''.md''"
    by (simp add: recognizedTypes_def ends_with_def)
  have 2: "''application/octet-stream'' \<notin> set recognizedTypes \<and> ends_with ''notes.md'' ''.md''"
    by (simp add: recognizedTypes_def ends_with_def)
  have 3: "processMarkdown '' # Title '' = ''# Title''"
    by code_simp
  from 1 processDocument_unsupported[of test_env "Str '' # Title ''" "''image/png''" "''logo.png''"]
  have "\<exists>msg. processDocument test_env (Str '' # Title '') ''image/png'' ''logo.png'' = Inl (UnsupportedFormat msg)"
    by blast
  then have a: "processDocument test_env (Str '' # Title '') ''image/png'' ''logo.png'' = Inl (UnsupportedFormat ''image/png'')"
    by (auto simp: processDocument_def split: if_splits)
  from 2 processDocument_unsupported[of test_env "Str '' # Title ''" "''application/octet-stream''" "''notes.md''"]
  have "processDocument test_env (Str '' # Title '') ''application/octet-stream'' ''notes.md''
          = Inr (processMarkdown (toString test_env (Str '' # Title '')))"
    by blast
  with 3 a show ?thesis by simp
qed

text \<open>
  C6, as the code has it. For the content types \<^verbatim>\<open>text/markdown\<close> and
  \<^verbatim>\<open>text/x-markdown\<close> the result is the content with a leading frontmatter block removed,
  trimmed: the pattern and the \<^verbatim>\<open>trim\<close> of \<^verbatim>\<open>processMarkdown\<close> do what
  \<open>strip_frontmatter\<close> and \<open>trim\<close> say, on every content. For \<^verbatim>\<open>text/plain\<close> the
  result is the content itself, with its frontmatter and its surrounding white space.
\<close>

theorem processDocument_text_types:
  "processDocument env content ''text/markdown'' fileName
     = Inr (trim (strip_frontmatter (toString env content)))
   \<and> processDocument env content ''text/x-markdown'' fileName
     = Inr (trim (strip_frontmatter (toString env content)))
   \<and> processDocument env content ''text/plain'' fileName = Inr (toString env content)"
  by (simp add: processDocument_def processMarkdown_strip)

text \<open>
  C6, as the claim has it, fails: a plain text that starts with a frontmatter block and ends
  in a blank comes back unchanged, where the markdown step gives \<^verbatim>\<open>Body\<close>.
\<close>

theorem processDocument_plain_counterexample:
  "processDocument test_env (Str (''---'' @ [NL] @ ''key: v'' @ [NL] @ ''---'' @ [NL] @ ''Body ''))
      ''text/plain'' ''notes.txt''
     = Inr (''---'' @ [NL] @ ''key: v'' @ [NL] @ ''---'' @ [NL] @ ''Body '')
   \<and> processMarkdown (toString test_env (Str (''---'' @ [NL] @ ''key: v'' @ [NL] @ ''---'' @ [NL] @ ''Body '')))
     = ''Body''
   \<and> processDocument test_env (Str (''---'' @ [NL] @ ''key: v'' @ [NL] @ ''---'' @ [NL] @ ''Body ''))
      ''text/plain'' ''notes.txt''
     \<noteq> Inr (processMarkdown (toString test_env (Str (''---'' @ [NL] @ ''key: v'' @ [NL] @ ''---'' @ [NL] @ ''Body ''))))"
proof -
  have "processMarkdown (''---'' @ [NL] @ ''key: v'' @ [NL] @ ''---'' @ [NL] @ ''Body '') = ''Body''"
    by code_simp
  then show ?thesis by (simp add: processDocument_def)
qed


section \<open>Frontmatter\<close>


text \<open>
  C8. On the text \<^verbatim>\<open>---\nkey: v\n---\nBody\<close> the markdown step returns \<^verbatim>\<open>Body\<close>,
  and \<^verbatim>\<open>extractFrontmatter\<close> returns the object with the one property
  \<^verbatim>\<open>key\<close> of value \<^verbatim>\<open>v\<close>.
\<close>

theorem frontmatter_example:
  "processMarkdown (''---'' @ [NL] @ ''key: v'' @ [NL] @ ''---'' @ [NL] @ ''Body'') = ''Body''
   \<and> extractFrontmatter (''---'' @ [NL] @ ''key: v'' @ [NL] @ ''---'' @ [NL] @ ''Body'')
       = Some [(''key'', ''v'')]"
  by code_simp

text \<open>
  C9. The two frontmatter patterns differ: \<^verbatim>\<open>extractFrontmatter\<close> accepts a closing
  \<^verbatim>\<open>---\<close> that no newline follows, the markdown step does not. On
  \<^verbatim>\<open>---\nk: v\n---\<close> the first returns an object and the second removes nothing.
\<close>

theorem frontmatter_patterns_differ:
  "extractFrontmatter (''---'' @ [NL] @ ''k: v'' @ [NL] @ ''---'') = Some [(''k'', ''v'')]
   \<and> processMarkdown (''---'' @ [NL] @ ''k: v'' @ [NL] @ ''---'') = ''---'' @ [NL] @ ''k: v'' @ [NL] @ ''---''"
  by code_simp


section \<open>The markup normalizer\<close>

text \<open>
  C10. An input without the character \<^verbatim>\<open><\<close> is cleaned to the empty string: no pass
  before the last one adds a \<^verbatim>\<open><\<close>, and the last one deletes everything before the
  first \<^verbatim>\<open><\<close>.
\<close>

theorem cleanHtml_without_tags: "CHR ''<'' \<notin> set html \<Longrightarrow> cleanHtml html = []"
proof -
  assume a: "CHR ''<'' \<notin> set html"
  then have "CHR ''<'' \<notin> set (truncate_meta html)" by (rule truncate_meta_no_lt)
  then have "CHR ''<'' \<notin> set (normalize_ws (allowlist (truncate_meta html)))"
    by (simp add: allowlist_noop normalize_ws_no_lt)
  then show ?thesis by (simp add: cleanHtml_def leading_all trim_def)
qed

theorem cleanHtml_without_tags_witness:
  "CHR ''<'' \<notin> set ''Quarterly report --- page 1'' \<and> cleanHtml ''Quarterly report --- page 1'' = []"
  using cleanHtml_without_tags[of "''Quarterly report --- page 1''"] by simp






text \<open>
  C1. An anchor without a quoted \<^verbatim>\<open>href\<close> keeps all its attributes, and a tag name
  that appears only after a disallowed tag was deleted from inside it stays in the output.
\<close>

theorem cleanHtml_leaks:
  "cleanHtml ''<a onclick=x>t</a>'' = ''<a onclick=x>t</a>''
   \<and> cleanHtml ''<<x>script>alert(1)<<x>/script>'' = ''<script>alert(1)</script>''"
  by code_simp

text \<open>
  C3. Empty paragraphs nested three deep contain only allowed tags; the first cleaning leaves
  an empty paragraph, which a second cleaning removes. In the same way the removal of an empty
  paragraph can join hyphens into a separator, at which a second cleaning truncates.
\<close>

theorem cleanHtml_second_pass_changes:
  "cleanHtml ''<p><p><p></p></p></p>'' = ''<p></p>''
   \<and> cleanHtml (cleanHtml ''<p><p><p></p></p></p>'') = []
   \<and> cleanHtml ''<p>a</p>-<p></p>--<p>b</p>'' = ''<p>a</p>---<p>b</p>''
   \<and> cleanHtml (cleanHtml ''<p>a</p>-<p></p>--<p>b</p>'') = ''<p>a</p>''"
  by code_simp

section \<open>The title extractor\<close>

text \<open>
  C4. The heading worked on is the first match of the \<^verbatim>\<open>h1\<close> pattern and, only when
  there is none, the first match of the \<^verbatim>\<open>h2\<close> pattern. The matched element \<open>el\<close>
  splits the input as \<open>a @ el @ b\<close> with no match of the same pattern beginning in \<open>a\<close>,
  and removing the first textual occurrence of \<open>el\<close> leaves \<open>a @ b\<close>, so every other
  heading stays. On \<^verbatim>\<open><h2>B</h2><h1>A</h1>\<close> the title is \<^verbatim>\<open>A\<close> and the content keeps
  the \<^verbatim>\<open>h2\<close> element.
\<close>

theorem h1_before_h2:
  "(match_elem h1_rx html = Some (el, inner) \<longrightarrow> find_heading html = Some (el, inner))
   \<and> (match_elem h1_rx html = None \<longrightarrow> find_heading html = match_elem h2_rx html)
   \<and> ((r = h1_rx \<or> r = h2_rx) \<and> match_elem r html = Some (el, inner) \<longrightarrow>
        (\<exists>a b. html = a @ el @ b \<and> (\<forall>j<length a. \<not> occurs True r html j)
               \<and> str_replace el [] html = a @ b))
   \<and> (find_heading html = Some (el, inner) \<longrightarrow>
        extractTitleFromContent html =
          \<lparr>title = (if title_text inner = [] then None else Some (title_text inner)),
           contentWithoutTitle = trim (str_replace el [] html)\<rparr>)
   \<and> (find_heading html = None \<longrightarrow>
        extractTitleFromContent html = \<lparr>title = None, contentWithoutTitle = html\<rparr>)
   \<and> extractTitleFromContent ''<h2>B</h2><h1>A</h1>'' = \<lparr>title = Some ''A'', contentWithoutTitle = ''<h2>B</h2>''\<rparr>"
proof -
  have 1: "match_elem h1_rx html = Some (el, inner) \<longrightarrow> find_heading html = Some (el, inner)"
    by (simp add: find_heading_def)
  have 2: "match_elem h1_rx html = None \<longrightarrow> find_heading html = match_elem h2_rx html"
    by (simp add: find_heading_def)
  have 3: "(r = h1_rx \<or> r = h2_rx) \<and> match_elem r html = Some (el, inner) \<longrightarrow>
        (\<exists>a b. html = a @ el @ b \<and> (\<forall>j<length a. \<not> occurs True r html j)
               \<and> str_replace el [] html = a @ b)"
    using match_elem_decomp[of r html el inner] by blast
  have 4: "find_heading html = Some (el, inner) \<longrightarrow>
        extractTitleFromContent html =
          \<lparr>title = (if title_text inner = [] then None else Some (title_text inner)),
           contentWithoutTitle = trim (str_replace el [] html)\<rparr>"
    by (auto simp: extractTitleFromContent_def find_heading_def match_elem_def split: option.splits)
  have 5: "find_heading html = None \<longrightarrow>
        extractTitleFromContent html = \<lparr>title = None, contentWithoutTitle = html\<rparr>"
    by (auto simp: extractTitleFromContent_def find_heading_def match_elem_def split: option.splits)
  have 6: "extractTitleFromContent ''<h2>B</h2><h1>A</h1>'' = \<lparr>title = Some ''A'', contentWithoutTitle = ''<h2>B</h2>''\<rparr>"
    by code_simp
  from 1 2 3 4 5 6 show ?thesis by blast
qed

theorem h1_before_h2_witness:
  "match_elem h1_rx ''<h2>B</h2><h1>A</h1>'' = Some (''<h1>A</h1>'', ''A'')
   \<and> match_elem h2_rx ''<h2>B</h2><h1>A</h1>'' = Some (''<h2>B</h2>'', ''B'')
   \<and> find_heading ''<h2>B</h2><h1>A</h1>'' = Some (''<h1>A</h1>'', ''A'')
   \<and> extractTitleFromContent ''<h2>B</h2><h1>A</h1>''
       = \<lparr>title = (if title_text ''A'' = [] then None else Some (title_text ''A'')),
          contentWithoutTitle = trim (str_replace ''<h1>A</h1>'' [] ''<h2>B</h2><h1>A</h1>'')\<rparr>"
proof -
  have m1: "match_elem h1_rx ''<h2>B</h2><h1>A</h1>'' = Some (''<h1>A</h1>'', ''A'')"
    by code_simp
  have m2: "match_elem h2_rx ''<h2>B</h2><h1>A</h1>'' = Some (''<h2>B</h2>'', ''B'')"
    by code_simp
  from h1_before_h2[of "''<h2>B</h2><h1>A</h1>''" "''<h1>A</h1>''" "''A''" h1_rx] m1
  have f: "find_heading ''<h2>B</h2><h1>A</h1>'' = Some (''<h1>A</h1>'', ''A'')" by blast
  from h1_before_h2[of "''<h2>B</h2><h1>A</h1>''" "''<h1>A</h1>''" "''A''" h1_rx] f
  have "extractTitleFromContent ''<h2>B</h2><h1>A</h1>''
       = \<lparr>title = (if title_text ''A'' = [] then None else Some (title_text ''A'')),
          contentWithoutTitle = trim (str_replace ''<h1>A</h1>'' [] ''<h2>B</h2><h1>A</h1>'')\<rparr>"
    by blast
  with m1 m2 f show ?thesis by blast
qed

text \<open>
  C5. The title of a matched heading is its inner markup with the tags stripped, the entities
  replaced, trimmed. The source replaces the six entities one after the other,
  \<^verbatim>\<open>&amp;\<close> before \<^verbatim>\<open>&lt;\<close>, so that the \<^verbatim>\<open>&\<close> made by one replacement is read
  again by the next ones: the heading \<^verbatim>\<open><h1>&amp;lt;</h1>\<close>, whose text decodes to
  \<^verbatim>\<open>&lt;\<close>, gets the title \<^verbatim>\<open><\<close>. On \<^verbatim>\<open><h1>Tom &amp; Jerry</h1>\<close> the title is
  the decoded text \<^verbatim>\<open>Tom & Jerry\<close>.
\<close>

theorem title_decodes_twice:
  "find_heading ''<h1>&amp;lt;</h1>'' = Some (''<h1>&amp;lt;</h1>'', ''&amp;lt;'')
   \<and> extractTitleFromContent ''<h1>&amp;lt;</h1>'' = \<lparr>title = Some ''<'', contentWithoutTitle = []\<rparr>
   \<and> trim (decode_entities (strip_tags ''&amp;lt;'')) = ''&lt;''
   \<and> find_heading ''<h1>Tom &amp; Jerry</h1>'' = Some (''<h1>Tom &amp; Jerry</h1>'', ''Tom &amp; Jerry'')
   \<and> extractTitleFromContent ''<h1>Tom &amp; Jerry</h1>'' = \<lparr>title = Some ''Tom & Jerry'', contentWithoutTitle = []\<rparr>
   \<and> trim (decode_entities (strip_tags ''Tom &amp; Jerry'')) = ''Tom & Jerry''"
  by code_simp

end
